theory Spec2Isabelle
  imports Main "HOL-Library.List_Lexorder" "HOL-Library.Multiset"
begin

section \<open>Strings and elements\<close>

text \<open>
  A Python \<open>str\<close> is a sequence of Unicode code points, so a character is modelled by
  its code point and a string by the list of them. String comparison in Python is the
  lexicographic order on code points, which is the order the list instance gives.
  \<open>asc\<close> turns an ASCII literal into such a string.
\<close>

type_synonym pychar = nat
type_synonym pystr = "pychar list"

definition asc :: "string \<Rightarrow> pystr" where
  "asc s = map of_char s"

definition comma :: pychar where "comma = 44"
definition minus_sign :: pychar where "minus_sign = 45"
definition plus_sign :: pychar where "plus_sign = 43"
definition underscore :: pychar where "underscore = 95"
definition backslash :: pychar where "backslash = 92"
definition cup :: pychar where "cup = 8746"
definition cap :: pychar where "cap = 8745"
definition empty_sign :: pychar where "empty_sign = 8709"

text \<open>
  The values the parsers produce: a Python \<open>int\<close> (unbounded) or a \<open>str\<close>.
  The exceptions the modelled code can meet are values of \<open>py_error\<close>.
\<close>

datatype elem = IntE int | StrE pystr

datatype py_error = ValueError | TypeError

subsection \<open>Whitespace and decimal digits\<close>

text \<open>
  \<open>str.strip()\<close> and the pattern class \<open>\s\<close> use the interpreter's whitespace
  predicate on code points.
\<close>

definition isspace :: "pychar \<Rightarrow> bool" where
  "isspace c \<longleftrightarrow>
     (9 \<le> c \<and> c \<le> 13) \<or> (28 \<le> c \<and> c \<le> 32) \<or> c = 133 \<or> c = 160 \<or> c = 5760 \<or>
     (8192 \<le> c \<and> c \<le> 8202) \<or> c = 8232 \<or> c = 8233 \<or> c = 8239 \<or> c = 8287 \<or> c = 12288"

text \<open>
  \<open>int()\<close> and the pattern class \<open>\d\<close> accept every Unicode decimal digit. The ASCII
  digits are fixed here; the table of the other decimal digits belongs to the
  interpreter's Unicode database and is the parameter \<open>nd\<close> of everything that reads
  digits (no whitespace character is a decimal digit).
\<close>

definition todecimal :: "(pychar \<Rightarrow> nat option) \<Rightarrow> pychar \<Rightarrow> nat option" where
  "todecimal nd c =
     (if 48 \<le> c \<and> c \<le> 57 then Some (c - 48)
      else if c < 128 \<or> isspace c then None
      else nd c)"

definition isdecimal :: "(pychar \<Rightarrow> nat option) \<Rightarrow> pychar \<Rightarrow> bool" where
  "isdecimal nd c \<longleftrightarrow> todecimal nd c \<noteq> None"

subsection \<open>\<open>str.strip\<close> and \<open>str.split(',')\<close>\<close>

definition strip_with :: "(pychar \<Rightarrow> bool) \<Rightarrow> pystr \<Rightarrow> pystr" where
  "strip_with ws s = rev (dropWhile ws (rev (dropWhile ws s)))"

definition strip :: "pystr \<Rightarrow> pystr" where
  "strip s = strip_with isspace s"

text \<open>
  \<open>text.split(',')\<close>: one token more than there are commas; the empty string gives
  one empty token. \<open>cur\<close> holds the current token, reversed.
\<close>

fun split_from :: "pystr \<Rightarrow> pystr \<Rightarrow> pystr list" where
  "split_from cur [] = [rev cur]"
| "split_from cur (c # cs) =
     (if c = comma then rev cur # split_from [] cs else split_from (c # cur) cs)"

definition split_comma :: "pystr \<Rightarrow> pystr list" where
  "split_comma text = split_from [] text"

subsection \<open>\<open>int(str)\<close>\<close>

text \<open>
  \<open>int(s)\<close> in base ten: surrounding whitespace is skipped, then an optional sign, then
  decimal digits in which single underscores may separate digits; anything else raises
  \<open>ValueError\<close>. Of the ASCII characters \<open>int\<close> skips only tab to carriage return and
  the space. \<open>prev\<close> is the character read before (\<open>None\<close> at the start), \<open>acc\<close>
  the value so far. After the scan \<open>int\<close> counts the digits it has read (every
  character but the underscores) and raises \<open>ValueError\<close> when there are more than
  the interpreter allows: 4300 unless the program or its environment changes the limit,
  which this program does not.
\<close>

definition int_max_str_digits :: nat where
  "int_max_str_digits = 4300"

definition int_space :: "pychar \<Rightarrow> bool" where
  "int_space c \<longleftrightarrow> isspace c \<and> \<not> (28 \<le> c \<and> c \<le> 31)"

fun int_digits :: "(pychar \<Rightarrow> nat option) \<Rightarrow> pychar option \<Rightarrow> nat \<Rightarrow> pystr \<Rightarrow> py_error + nat" where
  "int_digits nd prev acc [] =
     (if prev = None \<or> prev = Some underscore then Inl ValueError else Inr acc)"
| "int_digits nd prev acc (c # cs) =
     (if c = underscore then
        (if prev = None \<or> prev = Some underscore then Inl ValueError
         else int_digits nd (Some c) acc cs)
      else (case todecimal nd c of
              None \<Rightarrow> Inl ValueError
            | Some d \<Rightarrow> int_digits nd (Some c) (10 * acc + d) cs))"

definition int_value :: "(pychar \<Rightarrow> nat option) \<Rightarrow> pystr \<Rightarrow> py_error + nat" where
  "int_value nd cs =
     (case int_digits nd None 0 cs of
        Inl e \<Rightarrow> Inl e
      | Inr n \<Rightarrow>
          if int_max_str_digits < length (filter (\<lambda>c. c \<noteq> underscore) cs) then Inl ValueError
          else Inr n)"

definition py_int :: "(pychar \<Rightarrow> nat option) \<Rightarrow> pystr \<Rightarrow> py_error + int" where
  "py_int nd s =
     (case strip_with int_space s of
        [] \<Rightarrow> Inl ValueError
      | c # cs \<Rightarrow>
          if c = minus_sign then
            (case int_value nd cs of Inl e \<Rightarrow> Inl e | Inr n \<Rightarrow> Inr (- int n))
          else if c = plus_sign then
            (case int_value nd cs of Inl e \<Rightarrow> Inl e | Inr n \<Rightarrow> Inr (int n))
          else
            (case int_value nd (c # cs) of Inl e \<Rightarrow> Inl e | Inr n \<Rightarrow> Inr (int n)))"

text \<open>The digits of a token: the token without its sign.\<close>

definition digits_of :: "pystr \<Rightarrow> pystr" where
  "digits_of t =
     (case t of
        [] \<Rightarrow> []
      | c # cs \<Rightarrow> if c = minus_sign \<or> c = plus_sign then cs else t)"

text \<open>The table of an interpreter that knows no decimal digits beyond ASCII.\<close>

definition no_other_digits :: "pychar \<Rightarrow> nat option" where
  "no_other_digits c = None"

section \<open>The parsers\<close>

text \<open>
  \<open>parse_element\<close>: strip, \<open>None\<close> for the empty remainder, otherwise the integer, or
  the stripped string when \<open>int\<close> raises \<open>ValueError\<close>. Any other exception would
  propagate.
\<close>

definition parse_element :: "(pychar \<Rightarrow> nat option) \<Rightarrow> pystr \<Rightarrow> py_error + elem option" where
  "parse_element nd x =
     (let x_str = strip x in
      if x_str = [] then Inr None
      else (case py_int nd x_str of
              Inr n \<Rightarrow> Inr (Some (IntE n))
            | Inl ValueError \<Rightarrow> Inr (Some (StrE x_str))
            | Inl e \<Rightarrow> Inl e))"

text \<open>
  \<open>parse_set\<close>: the loop over the tokens, adding every parsed element that is not
  \<open>None\<close> to \<open>result\<close>.
\<close>

fun parse_set_loop :: "(pychar \<Rightarrow> nat option) \<Rightarrow> pystr list \<Rightarrow> elem set \<Rightarrow> py_error + elem set" where
  "parse_set_loop nd [] result = Inr result"
| "parse_set_loop nd (part # parts) result =
     (case parse_element nd part of
        Inl e \<Rightarrow> Inl e
      | Inr None \<Rightarrow> parse_set_loop nd parts result
      | Inr (Some el) \<Rightarrow> parse_set_loop nd parts (insert el result))"

definition parse_set :: "(pychar \<Rightarrow> nat option) \<Rightarrow> pystr \<Rightarrow> py_error + elem set" where
  "parse_set nd text = parse_set_loop nd (split_comma text) {}"

text \<open>
  The pattern of \<open>parse_universal\<close>,
  \<^verbatim>\<open>\s*([-]?\d+)\s*-\s*([-]?\d+)\s*\<close>, matched against the whole string. Whitespace,
  the minus sign and the decimal digits are disjoint classes, so a match is found by
  scanning from the left: each starred class takes the longest run. The result of
  \<open>range_match\<close> holds the two groups.
\<close>

definition opt_minus :: "pystr \<Rightarrow> pystr \<times> pystr" where
  "opt_minus r =
     (case r of
        [] \<Rightarrow> ([], [])
      | c # cs \<Rightarrow> if c = minus_sign then ([minus_sign], cs) else ([], r))"

text \<open>
  One group with the whitespace around it, \<^verbatim>\<open>\s*([-]?\d+)\s*\<close>, read from the front
  of \<open>txt\<close>: the group and what is left of the string, or \<open>None\<close> when no digit
  stands where the group must begin.
\<close>

definition scan_group :: "(pychar \<Rightarrow> nat option) \<Rightarrow> pystr \<Rightarrow> (pystr \<times> pystr) option" where
  "scan_group nd txt =
     (let (s, r) = opt_minus (dropWhile isspace txt);
          d = takeWhile (isdecimal nd) r
      in if d = [] then None
         else Some (s @ d, dropWhile isspace (dropWhile (isdecimal nd) r)))"

definition range_match :: "(pychar \<Rightarrow> nat option) \<Rightarrow> pystr \<Rightarrow> (pystr \<times> pystr) option" where
  "range_match nd txt =
     (case scan_group nd txt of
        None \<Rightarrow> None
      | Some (g1, r) \<Rightarrow>
          (case r of
             [] \<Rightarrow> None
           | c # r' \<Rightarrow>
               if c \<noteq> minus_sign then None
               else (case scan_group nd r' of
                       None \<Rightarrow> None
                     | Some (g2, r'') \<Rightarrow> if r'' = [] then Some (g1, g2) else None)))"

text \<open>
  The same pattern read as a regular expression: the whole string is whitespace, a
  group, whitespace, a minus sign, whitespace, a group, whitespace, where a group is an
  optional minus sign followed by one decimal digit or more.
\<close>

definition signed_digits :: "(pychar \<Rightarrow> nat option) \<Rightarrow> pystr \<Rightarrow> bool" where
  "signed_digits nd g \<longleftrightarrow>
     (\<exists>ds. ds \<noteq> [] \<and> list_all (isdecimal nd) ds \<and> (g = ds \<or> g = minus_sign # ds))"

definition range_pattern :: "(pychar \<Rightarrow> nat option) \<Rightarrow> pystr \<Rightarrow> pystr \<Rightarrow> pystr \<Rightarrow> bool" where
  "range_pattern nd txt g1 g2 \<longleftrightarrow>
     (\<exists>w1 w2 w3 w4.
        list_all isspace w1 \<and> list_all isspace w2 \<and> list_all isspace w3 \<and> list_all isspace w4 \<and>
        signed_digits nd g1 \<and> signed_digits nd g2 \<and>
        txt = w1 @ g1 @ w2 @ [minus_sign] @ w3 @ g2 @ w4)"

text \<open>
  \<open>parse_universal\<close>: the range when the pattern matches the stripped text,
  \<open>parse_set\<close> of the stripped text otherwise. \<open>set(range(a, b+1))\<close> holds the integers
  from \<open>a\<close> to \<open>b\<close>. Nothing catches an exception of \<open>int\<close> here.
\<close>

definition parse_universal :: "(pychar \<Rightarrow> nat option) \<Rightarrow> pystr \<Rightarrow> py_error + elem set" where
  "parse_universal nd text =
     (let txt = strip text in
      case range_match nd txt of
        Some (g1, g2) \<Rightarrow>
          (case py_int nd g1 of
             Inl e \<Rightarrow> Inl e
           | Inr start \<Rightarrow>
               (case py_int nd g2 of
                  Inl e \<Rightarrow> Inl e
                | Inr end' \<Rightarrow>
                    if start \<le> end' then Inr (IntE ` {start..end'})
                    else Inr (IntE ` {end'..start})))
      | None \<Rightarrow> parse_set nd txt)"

section \<open>Ordering and formatting\<close>

text \<open>
  \<open>x < y\<close> on elements: integers by value, strings by code points, and \<open>TypeError\<close>
  between an integer and a string.
\<close>

fun py_lt :: "elem \<Rightarrow> elem \<Rightarrow> py_error + bool" where
  "py_lt (IntE a) (IntE b) = Inr (a < b)"
| "py_lt (StrE s) (StrE t) = Inr (s < t)"
| "py_lt (IntE a) (StrE t) = Inl TypeError"
| "py_lt (StrE s) (IntE b) = Inl TypeError"

text \<open>
  \<open>sorted(xs)\<close> as a stable insertion sort that compares with \<open><\<close> only and stops at
  the first comparison that raises.
\<close>

fun insort_py :: "elem \<Rightarrow> elem list \<Rightarrow> py_error + elem list" where
  "insort_py x [] = Inr [x]"
| "insort_py x (y # ys) =
     (case py_lt y x of
        Inl e \<Rightarrow> Inl e
      | Inr True \<Rightarrow> (case insort_py x ys of Inl e \<Rightarrow> Inl e | Inr zs \<Rightarrow> Inr (y # zs))
      | Inr False \<Rightarrow> Inr (x # y # ys))"

fun sorted_py :: "elem list \<Rightarrow> py_error + elem list" where
  "sorted_py [] = Inr []"
| "sorted_py (x # xs) =
     (case sorted_py xs of Inl e \<Rightarrow> Inl e | Inr ys \<Rightarrow> insort_py x ys)"

text \<open>\<open>str(e)\<close>: the decimal numeral of an integer, the string itself for a string.\<close>

fun str_nat :: "nat \<Rightarrow> pystr" where
  "str_nat n = (if n < 10 then [48 + n] else str_nat (n div 10) @ [48 + n mod 10])"

declare str_nat.simps [simp del]

definition str_int :: "int \<Rightarrow> pystr" where
  "str_int i = (if i < 0 then minus_sign # str_nat (nat (- i)) else str_nat (nat i))"

fun py_str :: "elem \<Rightarrow> pystr" where
  "py_str (IntE i) = str_int i"
| "py_str (StrE s) = s"

text \<open>
  The order in which the interpreter iterates over a set is not fixed by the program:
  it is the parameter \<open>iter\<close>, which lists the elements of a set, each once.
  \<open>sort_result\<close> sorts that sequence, and on \<open>TypeError\<close> sorts it again by the key
  \<open>str\<close> (a stable sort on keys).
\<close>

definition iteration_order :: "(elem set \<Rightarrow> elem list) \<Rightarrow> elem set \<Rightarrow> bool" where
  "iteration_order iter s \<longleftrightarrow> set (iter s) = s \<and> distinct (iter s)"

definition sort_result :: "(elem set \<Rightarrow> elem list) \<Rightarrow> elem set \<Rightarrow> py_error + elem list" where
  "sort_result iter s =
     (case sorted_py (iter s) of
        Inr elems \<Rightarrow> Inr elems
      | Inl TypeError \<Rightarrow> Inr (sort_key py_str (iter s))
      | Inl e \<Rightarrow> Inl e)"

fun join :: "pystr \<Rightarrow> pystr list \<Rightarrow> pystr" where
  "join sep [] = []"
| "join sep [x] = x"
| "join sep (x # y # ys) = x @ sep @ join sep (y # ys)"

definition format_set :: "(elem set \<Rightarrow> elem list) \<Rightarrow> elem set \<Rightarrow> py_error + pystr" where
  "format_set iter s =
     (if s = {} then Inr [empty_sign]
      else (case sort_result iter s of
              Inl e \<Rightarrow> Inl e
            | Inr elems \<Rightarrow> Inr (asc ''{'' @ join (asc '', '') (map py_str elems) @ asc ''}'')))"

section \<open>The Venn diagram section\<close>

subsection \<open>The operation menus\<close>

definition two_set_operations :: "pystr list" where
  "two_set_operations =
     [asc ''A '' @ [cup] @ asc '' B'',
      asc ''A '' @ [cap] @ asc '' B'',
      asc ''A '' @ [backslash] @ asc '' B'',
      asc ''B '' @ [backslash] @ asc '' A'',
      asc ''Complement of A'',
      asc ''Complement of B'',
      asc ''Complement of (A '' @ [cup] @ asc '' B)'',
      asc ''Complement of (A '' @ [cap] @ asc '' B)'']"


subsection \<open>Coverage of the universal set\<close>

text \<open>\<open>sub in s\<close> on strings.\<close>

fun contains :: "pystr \<Rightarrow> pystr \<Rightarrow> bool" where
  "contains sub [] = (sub = [])"
| "contains sub (c # cs) = (take (length sub) (c # cs) = sub \<or> contains sub cs)"

text \<open>
  What the page shows beside the diagram: \<open>st.sidebar.error\<close> and \<open>st.error\<close> put a
  message on the page and return; the run goes on.
\<close>

datatype message = Sidebar_error pystr | Page_error pystr

text \<open>
  The coverage check. \<open>C\<close> is read only when \<open>num_sets\<close> is three, where the program
  has parsed it.
\<close>

definition missing_elements :: "nat \<Rightarrow> elem set \<Rightarrow> elem set \<Rightarrow> elem set \<Rightarrow> elem set \<Rightarrow> elem set" where
  "missing_elements num_sets A B C U =
     (let missing = {};
          missing = missing \<union> (A - U);
          missing = missing \<union> (B - U)
      in if num_sets = 3 then missing \<union> (C - U) else missing)"

definition universal_coverage ::
  "(elem set \<Rightarrow> elem list) \<Rightarrow> nat \<Rightarrow> pystr \<Rightarrow> elem set \<Rightarrow> elem set \<Rightarrow> elem set \<Rightarrow> elem set \<Rightarrow>
     py_error + message list" where
  "universal_coverage iter num_sets operation A B C U =
     (if contains (asc ''Complement'') operation then
        (let missing = missing_elements num_sets A B C U in
         if missing \<noteq> {} then
           (case format_set iter missing of
              Inl e \<Rightarrow> Inl e
            | Inr t \<Rightarrow>
                Inr [Sidebar_error (asc ''Universal set missing elements: '' @ t @
                                    asc ''. Complements may be incomplete.'')])
         else Inr [])
      else Inr [])"

subsection \<open>Result and highlighted regions for two sets\<close>

record venn2 =
  set1 :: "elem set"
  set2 :: "elem set"
  colors :: "pystr \<times> pystr"
  result :: "elem set"
  highlight_ids :: "pystr list"
  messages :: "message list"

definition two_set_result ::
  "pystr \<Rightarrow> elem set \<Rightarrow> elem set \<Rightarrow> elem set \<Rightarrow> pystr \<Rightarrow> pystr \<Rightarrow> venn2" where
  "two_set_result operation A B U color_A color_B =
     (let v = \<lparr>set1 = A, set2 = B, colors = (color_A, color_B),
                result = {}, highlight_ids = [], messages = []\<rparr>
      in if operation = asc ''A '' @ [cup] @ asc '' B'' then
           v\<lparr>result := A \<union> B, highlight_ids := [asc ''10'', asc ''01'', asc ''11'']\<rparr>
         else if operation = asc ''A '' @ [cap] @ asc '' B'' then
           v\<lparr>result := A \<inter> B, highlight_ids := [asc ''11'']\<rparr>
         else if operation = asc ''A '' @ [backslash] @ asc '' B'' then
           v\<lparr>result := A - B, highlight_ids := [asc ''10'']\<rparr>
         else if operation = asc ''B '' @ [backslash] @ asc '' A'' then
           v\<lparr>result := B - A, highlight_ids := [asc ''01'']\<rparr>
         else if operation = asc ''Complement of A'' then
           v\<lparr>result := U - A, set1 := U, set2 := A,
              colors := (asc ''#CCCCCC'', color_A), highlight_ids := [asc ''10'']\<rparr>
         else if operation = asc ''Complement of B'' then
           v\<lparr>result := U - B, set1 := U, set2 := B,
              colors := (asc ''#CCCCCC'', color_B), highlight_ids := [asc ''10'']\<rparr>
         else if operation = asc ''Complement of (A '' @ [cup] @ asc '' B)'' then
           (let union = A \<union> B in
            v\<lparr>result := U - union, set1 := U, set2 := union,
               colors := (asc ''#CCCCCC'', asc ''#888888''), highlight_ids := [asc ''10'']\<rparr>)
         else if operation = asc ''Complement of (A '' @ [cap] @ asc '' B)'' then
           (let inter = A \<inter> B in
            v\<lparr>result := U - inter, set1 := U, set2 := inter,
               colors := (asc ''#CCCCCC'', asc ''#888888''), highlight_ids := [asc ''10'']\<rparr>)
         else
           v\<lparr>messages := [Page_error (asc ''Unknown operation.'')],
              set1 := {}, set2 := {}, result := {}, colors := (color_A, color_B)\<rparr>)"

text \<open>
  The run for two sets: the coverage check, then result and regions. An exception in the
  check would end the run before anything is computed.
\<close>

definition venn_two ::
  "(elem set \<Rightarrow> elem list) \<Rightarrow> pystr \<Rightarrow> elem set \<Rightarrow> elem set \<Rightarrow> elem set \<Rightarrow> pystr \<Rightarrow> pystr \<Rightarrow>
     py_error + venn2" where
  "venn_two iter operation A B U color_A color_B =
     (case universal_coverage iter 2 operation A B {} U of
        Inl e \<Rightarrow> Inl e
      | Inr warnings \<Rightarrow>
          (let v = two_set_result operation A B U color_A color_B
           in Inr (v\<lparr>messages := warnings @ messages v\<rparr>)))"

subsection \<open>Result and highlighted regions for three sets\<close>

text \<open>
  Modelled from the spec: the branch of the program for three sets is not in the source
  at hand, which ends where that branch begins; what it yields is this record. The spec
  has the evaluator compute "the resulting set" and "the set of Venn-diagram region
  identifiers that should be visually emphasized", and a complement operation substitute
  \<open>U\<close> "as one of the two rendered sets"; an unrecognized operation "surfaces a
  user-visible error message".
\<close>

record venn3 =
  rendered :: "elem set list"
  result3 :: "elem set"
  highlight_ids3 :: "pystr list"
  messages3 :: "message list"

text \<open>
  Modelled from the spec: the dispatch for three sets, missing from the source. The spec
  computes the result of the named expression "via the standard algebra (union,
  intersection, difference, symmetric combinations, or complement relative to U)" and
  highlights the regions "matching the semantics of the chosen operation exactly"; "a
  complement operation substitutes U as one of the two rendered sets and highlights the
  region representing outside the other set"; an unrecognized operation "falls back to
  treating all sets as empty". A region identifier has one flag per rendered set, as
  "10", "01" and "11" have for two sets; for three sets the flags stand for \<open>A\<close>, \<open>B\<close>
  and \<open>C\<close> in this order.
\<close>

definition three_set_result ::
  "pystr \<Rightarrow> elem set \<Rightarrow> elem set \<Rightarrow> elem set \<Rightarrow> elem set \<Rightarrow> venn3" where
  "three_set_result operation A B C U =
     (let v = \<lparr>rendered = [A, B, C], result3 = {}, highlight_ids3 = [], messages3 = []\<rparr>
      in
         if operation = asc ''A '' @ [cup] @ asc '' B '' @ [cup] @ asc '' C'' then
           v\<lparr>rendered := [A, B, C], result3 := A \<union> B \<union> C,
             highlight_ids3 := [asc ''100'', asc ''010'', asc ''110'', asc ''001'', asc ''101'', asc ''011'',
              asc ''111'']\<rparr>
         else if operation = asc ''A '' @ [cap] @ asc '' B '' @ [cap] @ asc '' C'' then
           v\<lparr>rendered := [A, B, C], result3 := A \<inter> B \<inter> C,
             highlight_ids3 := [asc ''111'']\<rparr>
         else if operation = asc ''A '' @ [backslash] @ asc '' (B '' @ [cup] @ asc '' C)'' then
           v\<lparr>rendered := [A, B, C], result3 := A - (B \<union> C),
             highlight_ids3 := [asc ''100'']\<rparr>
         else if operation = asc ''B '' @ [backslash] @ asc '' (A '' @ [cup] @ asc '' C)'' then
           v\<lparr>rendered := [A, B, C], result3 := B - (A \<union> C),
             highlight_ids3 := [asc ''010'']\<rparr>
         else if operation = asc ''C '' @ [backslash] @ asc '' (A '' @ [cup] @ asc '' B)'' then
           v\<lparr>rendered := [A, B, C], result3 := C - (A \<union> B),
             highlight_ids3 := [asc ''001'']\<rparr>
         else if operation = asc ''(A '' @ [cap] @ asc '' B) '' @ [backslash] @ asc '' C'' then
           v\<lparr>rendered := [A, B, C], result3 := A \<inter> B - C,
             highlight_ids3 := [asc ''110'']\<rparr>
         else if operation = asc ''(A '' @ [cap] @ asc '' C) '' @ [backslash] @ asc '' B'' then
           v\<lparr>rendered := [A, B, C], result3 := A \<inter> C - B,
             highlight_ids3 := [asc ''101'']\<rparr>
         else if operation = asc ''(B '' @ [cap] @ asc '' C) '' @ [backslash] @ asc '' A'' then
           v\<lparr>rendered := [A, B, C], result3 := B \<inter> C - A,
             highlight_ids3 := [asc ''011'']\<rparr>
         else if operation = asc ''Complement of A'' then
           v\<lparr>rendered := [U, A], result3 := U - A,
             highlight_ids3 := [asc ''10'']\<rparr>
         else if operation = asc ''Complement of B'' then
           v\<lparr>rendered := [U, B], result3 := U - B,
             highlight_ids3 := [asc ''10'']\<rparr>
         else if operation = asc ''Complement of C'' then
           v\<lparr>rendered := [U, C], result3 := U - C,
             highlight_ids3 := [asc ''10'']\<rparr>
         else if operation = asc ''Complement of (A '' @ [cup] @ asc '' B '' @ [cup] @ asc '' C)'' then
           v\<lparr>rendered := [U, A \<union> B \<union> C], result3 := U - (A \<union> B \<union> C),
             highlight_ids3 := [asc ''10'']\<rparr>
         else if operation = asc ''Complement of (A '' @ [cap] @ asc '' B '' @ [cap] @ asc '' C)'' then
           v\<lparr>rendered := [U, A \<inter> B \<inter> C], result3 := U - (A \<inter> B \<inter> C),
             highlight_ids3 := [asc ''10'']\<rparr>
         else
           v\<lparr>messages3 := [Page_error (asc ''Unknown operation.'')],
             rendered := [{}, {}, {}], result3 := {}\<rparr>)"

text \<open>
  Modelled from the spec: the run for three sets. The coverage check is the program's
  own and comes before the dispatch, as for two sets; the dispatch is the one above.
\<close>

definition venn_three ::
  "(elem set \<Rightarrow> elem list) \<Rightarrow> pystr \<Rightarrow> elem set \<Rightarrow> elem set \<Rightarrow> elem set \<Rightarrow> elem set \<Rightarrow>
     py_error + venn3" where
  "venn_three iter operation A B C U =
     (case universal_coverage iter 3 operation A B C U of
        Inl e \<Rightarrow> Inl e
      | Inr warnings \<Rightarrow>
          (let v = three_set_result operation A B C U
           in Inr (v\<lparr>messages3 := warnings @ messages3 v\<rparr>)))"

text \<open>The warning of the coverage check, given the formatted set of missing elements.\<close>

definition missing_message :: "pystr \<Rightarrow> message" where
  "missing_message t =
     Sidebar_error (asc ''Universal set missing elements: '' @ t @
                    asc ''. Complements may be incomplete.'')"

section \<open>Integer tokens in the words of the specification\<close>

text \<open>
  The specification speaks of integer-looking tokens: an optional sign followed by
  decimal digits, read in base ten by a conforming integer parser. \<open>spec_integer\<close>
  follows these words on ASCII digits; it is compared with \<open>py_int\<close> below.
\<close>

definition ascii_digit :: "pychar \<Rightarrow> bool" where
  "ascii_digit c \<longleftrightarrow> 48 \<le> c \<and> c \<le> 57"

definition decimal_value :: "pystr \<Rightarrow> nat" where
  "decimal_value ds = foldl (\<lambda>acc d. 10 * acc + (d - 48)) 0 ds"

definition spec_integer :: "pystr \<Rightarrow> int option" where
  "spec_integer t =
     (case t of
        [] \<Rightarrow> None
      | c # cs \<Rightarrow>
          if c = minus_sign then
            (if cs \<noteq> [] \<and> list_all ascii_digit cs then Some (- int (decimal_value cs)) else None)
          else if c = plus_sign then
            (if cs \<noteq> [] \<and> list_all ascii_digit cs then Some (int (decimal_value cs)) else None)
          else if list_all ascii_digit t then Some (int (decimal_value t)) else None)"

text \<open>Whether an element is an integer; two elements compare without error when they agree here.\<close>

fun is_int :: "elem \<Rightarrow> bool" where
  "is_int (IntE i) = True"
| "is_int (StrE s) = False"

section \<open>Basic facts\<close>

subsection \<open>String literals\<close>

lemma asc_Nil: "asc [] = []"
  by (simp add: asc_def)

lemma asc_Cons: "asc (c # cs) = of_char c # asc cs"
  by (simp add: asc_def)

lemmas chars = asc_Nil asc_Cons cup_def cap_def backslash_def comma_def minus_sign_def
  plus_sign_def underscore_def empty_sign_def

subsection \<open>Sorting never raises anything but \<open>TypeError\<close>\<close>

lemma insort_py_error: "insort_py x ys = Inl e \<Longrightarrow> e = TypeError"
proof (induction ys)
  case Nil
  then show ?case by simp
next
  case (Cons y ys)
  then show ?case
    by (cases x; cases y) (auto split: sum.splits bool.splits)
qed

lemma sorted_py_error: "sorted_py xs = Inl e \<Longrightarrow> e = TypeError"
proof (induction xs)
  case Nil
  then show ?case by simp
next
  case (Cons x xs)
  show ?case
  proof (cases "sorted_py xs")
    case (Inl e')
    with Cons show ?thesis by simp
  next
    case (Inr ys)
    with Cons.prems have "insort_py x ys = Inl e" by simp
    then show ?thesis by (rule insort_py_error)
  qed
qed

lemma sort_result_total: "\<exists>elems. sort_result iter s = Inr elems"
proof (cases "sorted_py (iter s)")
  case (Inl e)
  then have "e = TypeError" by (rule sorted_py_error)
  with Inl show ?thesis by (simp add: sort_result_def)
next
  case (Inr ys)
  then show ?thesis by (simp add: sort_result_def)
qed

lemma format_set_total: "\<exists>t. format_set iter s = Inr t"
proof -
  obtain elems where "sort_result iter s = Inr elems" using sort_result_total by blast
  then show ?thesis by (simp add: format_set_def)
qed

subsection \<open>The coverage check on operations without a complement\<close>

lemma coverage_no_complement:
  "\<not> contains (asc ''Complement'') operation \<Longrightarrow>
   universal_coverage iter n operation A B C U = Inr []"
  by (simp add: universal_coverage_def)

lemma contains_union: "\<not> contains (asc ''Complement'') (asc ''A '' @ [cup] @ asc '' B'')"
  by (simp add: chars)

lemma contains_inter: "\<not> contains (asc ''Complement'') (asc ''A '' @ [cap] @ asc '' B'')"
  by (simp add: chars)

section \<open>Union and intersection of two sets\<close>

text \<open>
  C1. For all sets \<open>A\<close> and \<open>B\<close>, the run for the operation "A \<open>\<union>\<close> B" has the result
  \<open>A \<union> B\<close>, which is the union of the three regions \<open>A - B\<close>, \<open>B - A\<close> and \<open>A \<inter> B\<close>;
  the regions are pairwise disjoint; the highlighted regions are "10", "01" and "11".
  The run for "A \<open>\<inter>\<close> B" highlights "11" only.
\<close>

theorem union_partition:
  "venn_two iter (asc ''A '' @ [cup] @ asc '' B'') A B U color_A color_B =
     Inr \<lparr>set1 = A, set2 = B, colors = (color_A, color_B), result = A \<union> B,
          highlight_ids = [asc ''10'', asc ''01'', asc ''11''], messages = []\<rparr>
   \<and> A \<union> B = (A - B) \<union> (B - A) \<union> (A \<inter> B)
   \<and> (A - B) \<inter> (B - A) = {} \<and> (A - B) \<inter> (A \<inter> B) = {} \<and> (B - A) \<inter> (A \<inter> B) = {}
   \<and> venn_two iter (asc ''A '' @ [cap] @ asc '' B'') A B U color_A color_B =
     Inr \<lparr>set1 = A, set2 = B, colors = (color_A, color_B), result = A \<inter> B,
          highlight_ids = [asc ''11''], messages = []\<rparr>"
proof -
  have 1: "venn_two iter (asc ''A '' @ [cup] @ asc '' B'') A B U color_A color_B =
     Inr \<lparr>set1 = A, set2 = B, colors = (color_A, color_B), result = A \<union> B,
          highlight_ids = [asc ''10'', asc ''01'', asc ''11''], messages = []\<rparr>"
    unfolding venn_two_def coverage_no_complement [OF contains_union]
    by (simp add: two_set_result_def)
  have 2: "venn_two iter (asc ''A '' @ [cap] @ asc '' B'') A B U color_A color_B =
     Inr \<lparr>set1 = A, set2 = B, colors = (color_A, color_B), result = A \<inter> B,
          highlight_ids = [asc ''11''], messages = []\<rparr>"
    unfolding venn_two_def coverage_no_complement [OF contains_inter]
    by (simp add: two_set_result_def chars)
  have 3: "A \<union> B = (A - B) \<union> (B - A) \<union> (A \<inter> B)" by blast
  have 4: "(A - B) \<inter> (B - A) = {} \<and> (A - B) \<inter> (A \<inter> B) = {} \<and> (B - A) \<inter> (A \<inter> B) = {}"
    by blast
  from 1 2 3 4 show ?thesis by simp
qed

subsection \<open>The run for two sets\<close>

lemma coverage_total: "\<exists>w. universal_coverage iter n operation A B C U = Inr w"
proof -
  obtain t where "format_set iter (missing_elements n A B C U) = Inr t"
    using format_set_total by blast
  then show ?thesis by (simp add: universal_coverage_def Let_def)
qed

lemma venn_two_result:
  "\<exists>w. venn_two iter operation A B U color_A color_B =
     Inr ((two_set_result operation A B U color_A color_B)
            \<lparr>messages := w @ messages (two_set_result operation A B U color_A color_B)\<rparr>)
     \<and> universal_coverage iter 2 operation A B {} U = Inr w"
proof -
  obtain w where "universal_coverage iter 2 operation A B {} U = Inr w"
    using coverage_total by blast
  then show ?thesis by (simp add: venn_two_def Let_def)
qed

lemma result_complement_A:
  "two_set_result (asc ''Complement of A'') A B U color_A color_B =
     \<lparr>set1 = U, set2 = A, colors = (asc ''#CCCCCC'', color_A), result = U - A,
      highlight_ids = [asc ''10''], messages = []\<rparr>"
  by (simp add: two_set_result_def chars)

lemma result_complement_B:
  "two_set_result (asc ''Complement of B'') A B U color_A color_B =
     \<lparr>set1 = U, set2 = B, colors = (asc ''#CCCCCC'', color_B), result = U - B,
      highlight_ids = [asc ''10''], messages = []\<rparr>"
  by (simp add: two_set_result_def chars)

lemma result_complement_union:
  "two_set_result (asc ''Complement of (A '' @ [cup] @ asc '' B)'') A B U color_A color_B =
     \<lparr>set1 = U, set2 = A \<union> B, colors = (asc ''#CCCCCC'', asc ''#888888''),
      result = U - (A \<union> B), highlight_ids = [asc ''10''], messages = []\<rparr>"
  by (simp add: two_set_result_def Let_def chars)

lemma result_complement_inter:
  "two_set_result (asc ''Complement of (A '' @ [cap] @ asc '' B)'') A B U color_A color_B =
     \<lparr>set1 = U, set2 = A \<inter> B, colors = (asc ''#CCCCCC'', asc ''#888888''),
      result = U - (A \<inter> B), highlight_ids = [asc ''10''], messages = []\<rparr>"
  by (simp add: two_set_result_def Let_def chars)

lemma one_to_ten_without_evens:
  "IntE ` {1..10} - {IntE 2, IntE 4, IntE 6, IntE 8} =
     {IntE 1, IntE 3, IntE 5, IntE 7, IntE 9, IntE 10}"
proof -
  have "{1..10::int} = {1, 2, 3, 4, 5, 6, 7, 8, 9, 10}" by (auto; arith)
  then show ?thesis by auto
qed

section \<open>Complements of two sets\<close>

text \<open>
  C2. For each of the four complement operations on two sets the result is the
  universal set \<open>U\<close> without the operand (\<open>A\<close>, \<open>B\<close>, \<open>A \<union> B\<close> or \<open>A \<inter> B\<close>); the rendered
  pair has \<open>U\<close> as its first set and the operand as its second; the only highlighted
  region is "10". With \<open>U\<close> the integers from 1 to 10 and \<open>A = {2, 4, 6, 8}\<close>,
  "Complement of A" gives \<open>{1, 3, 5, 7, 9, 10}\<close>. The messages are those of the coverage
  check.
\<close>

theorem complement_operations:
  "(\<exists>w. venn_two iter (asc ''Complement of A'') A B U color_A color_B =
      Inr \<lparr>set1 = U, set2 = A, colors = (asc ''#CCCCCC'', color_A), result = U - A,
           highlight_ids = [asc ''10''], messages = w\<rparr>)
   \<and> (\<exists>w. venn_two iter (asc ''Complement of B'') A B U color_A color_B =
      Inr \<lparr>set1 = U, set2 = B, colors = (asc ''#CCCCCC'', color_B), result = U - B,
           highlight_ids = [asc ''10''], messages = w\<rparr>)
   \<and> (\<exists>w. venn_two iter (asc ''Complement of (A '' @ [cup] @ asc '' B)'') A B U color_A color_B =
      Inr \<lparr>set1 = U, set2 = A \<union> B, colors = (asc ''#CCCCCC'', asc ''#888888''),
           result = U - (A \<union> B), highlight_ids = [asc ''10''], messages = w\<rparr>)
   \<and> (\<exists>w. venn_two iter (asc ''Complement of (A '' @ [cap] @ asc '' B)'') A B U color_A color_B =
      Inr \<lparr>set1 = U, set2 = A \<inter> B, colors = (asc ''#CCCCCC'', asc ''#888888''),
           result = U - (A \<inter> B), highlight_ids = [asc ''10''], messages = w\<rparr>)
   \<and> (\<exists>w. venn_two iter (asc ''Complement of A'') {IntE 2, IntE 4, IntE 6, IntE 8} B
           (IntE ` {1..10}) color_A color_B =
      Inr \<lparr>set1 = IntE ` {1..10}, set2 = {IntE 2, IntE 4, IntE 6, IntE 8},
           colors = (asc ''#CCCCCC'', color_A),
           result = {IntE 1, IntE 3, IntE 5, IntE 7, IntE 9, IntE 10},
           highlight_ids = [asc ''10''], messages = w\<rparr>)"
proof -
  have a: "\<exists>w. venn_two iter (asc ''Complement of A'') A B U color_A color_B =
      Inr \<lparr>set1 = U, set2 = A, colors = (asc ''#CCCCCC'', color_A), result = U - A,
           highlight_ids = [asc ''10''], messages = w\<rparr>" for A B U
    using venn_two_result [of iter "asc ''Complement of A''" A B U color_A color_B]
    unfolding result_complement_A by auto
  have b: "\<exists>w. venn_two iter (asc ''Complement of B'') A B U color_A color_B =
      Inr \<lparr>set1 = U, set2 = B, colors = (asc ''#CCCCCC'', color_B), result = U - B,
           highlight_ids = [asc ''10''], messages = w\<rparr>"
    using venn_two_result [of iter "asc ''Complement of B''" A B U color_A color_B]
    unfolding result_complement_B by auto
  have c: "\<exists>w. venn_two iter (asc ''Complement of (A '' @ [cup] @ asc '' B)'') A B U color_A color_B =
      Inr \<lparr>set1 = U, set2 = A \<union> B, colors = (asc ''#CCCCCC'', asc ''#888888''),
           result = U - (A \<union> B), highlight_ids = [asc ''10''], messages = w\<rparr>"
    using venn_two_result [of iter "asc ''Complement of (A '' @ [cup] @ asc '' B)''" A B U color_A color_B]
    unfolding result_complement_union by auto
  have d: "\<exists>w. venn_two iter (asc ''Complement of (A '' @ [cap] @ asc '' B)'') A B U color_A color_B =
      Inr \<lparr>set1 = U, set2 = A \<inter> B, colors = (asc ''#CCCCCC'', asc ''#888888''),
           result = U - (A \<inter> B), highlight_ids = [asc ''10''], messages = w\<rparr>"
    using venn_two_result [of iter "asc ''Complement of (A '' @ [cap] @ asc '' B)''" A B U color_A color_B]
    unfolding result_complement_inter by auto
  have e: "\<exists>w. venn_two iter (asc ''Complement of A'') {IntE 2, IntE 4, IntE 6, IntE 8} B
           (IntE ` {1..10}) color_A color_B =
      Inr \<lparr>set1 = IntE ` {1..10}, set2 = {IntE 2, IntE 4, IntE 6, IntE 8},
           colors = (asc ''#CCCCCC'', color_A),
           result = {IntE 1, IntE 3, IntE 5, IntE 7, IntE 9, IntE 10},
           highlight_ids = [asc ''10''], messages = w\<rparr>"
    using a [of "{IntE 2, IntE 4, IntE 6, IntE 8}" B "IntE ` {1..10}"]
    unfolding one_to_ten_without_evens .
  from a [of A B U] b c d e show ?thesis by blast
qed

section \<open>Operations outside the menu\<close>

text \<open>
  C7. For an operation that is none of the eight names of the two-set menu, the run does
  not raise: it puts the message "Unknown operation." on the page (after whatever the
  coverage check reported), and the rendered sets and the result are all empty.
\<close>

theorem unknown_operation:
  assumes "operation \<notin> set two_set_operations"
  shows "\<exists>w. universal_coverage iter 2 operation A B {} U = Inr w \<and>
         venn_two iter operation A B U color_A color_B =
           Inr \<lparr>set1 = {}, set2 = {}, colors = (color_A, color_B), result = {},
                highlight_ids = [], messages = w @ [Page_error (asc ''Unknown operation.'')]\<rparr>"
proof -
  from assms have "two_set_result operation A B U color_A color_B =
      \<lparr>set1 = {}, set2 = {}, colors = (color_A, color_B), result = {},
                highlight_ids = [], messages = [Page_error (asc ''Unknown operation.'')]\<rparr>"
    by (simp add: two_set_result_def two_set_operations_def)
  then show ?thesis
    using venn_two_result [of iter operation A B U color_A color_B] by auto
qed

theorem unknown_operation_witness:
  "asc ''Complement of C'' \<notin> set two_set_operations \<and>
   venn_two (\<lambda>s. [IntE 5]) (asc ''Complement of C'') {IntE 5} {} {} (asc ''#FF5733'') (asc ''#33C1FF'') =
     Inr \<lparr>set1 = {}, set2 = {}, colors = (asc ''#FF5733'', asc ''#33C1FF''), result = {},
          highlight_ids = [],
          messages = [Sidebar_error (asc ''Universal set missing elements: {5}. Complements may be incomplete.''),
                      Page_error (asc ''Unknown operation.'')]\<rparr>"
proof -
  have m: "asc ''Complement of C'' \<notin> set two_set_operations"
    by (simp add: two_set_operations_def chars)
  have c: "universal_coverage (\<lambda>s. [IntE 5]) 2 (asc ''Complement of C'') {IntE 5} {} {} {} =
      Inr [Sidebar_error (asc ''Universal set missing elements: {5}. Complements may be incomplete.'')]"
    by (simp add: universal_coverage_def missing_elements_def format_set_def sort_result_def
        str_int_def str_nat.simps chars)
  from unknown_operation [OF m, of "\<lambda>s. [IntE 5]" "{IntE 5}" "{}" "{}" "asc ''#FF5733''" "asc ''#33C1FF''"]
  show ?thesis using m c by auto
qed

section \<open>Coverage of the universal set\<close>

subsection \<open>Sorting keeps the elements\<close>

lemma insort_py_set:
  "insort_py x ys = Inr zs \<Longrightarrow> set zs = insert x (set ys) \<and> length zs = Suc (length ys)"
proof (induction ys arbitrary: zs)
  case Nil
  then show ?case by auto
next
  case (Cons y ys)
  show ?case
  proof (cases "py_lt y x")
    case (Inl e)
    with Cons.prems show ?thesis by simp
  next
    case (Inr b)
    show ?thesis
    proof (cases b)
      case True
      with Inr Cons.prems obtain ws where ws: "insort_py x ys = Inr ws" and zs: "zs = y # ws"
        by (cases "insort_py x ys") auto
      from Cons.IH [OF ws] zs show ?thesis by auto
    next
      case False
      with Inr Cons.prems show ?thesis by auto
    qed
  qed
qed

lemma sorted_py_set: "sorted_py xs = Inr ys \<Longrightarrow> set ys = set xs \<and> length ys = length xs"
proof (induction xs arbitrary: ys)
  case Nil
  then show ?case by simp
next
  case (Cons x xs)
  then obtain ws where ws: "sorted_py xs = Inr ws" and ins: "insort_py x ws = Inr ys"
    by (cases "sorted_py xs") auto
  from Cons.IH [OF ws] insort_py_set [OF ins] show ?case by auto
qed

lemma insort_py_int: "insort_py (IntE i) (map IntE js) = Inr (map IntE (insort i js))"
  by (induction js) auto

lemma sorted_py_int: "sorted_py (map IntE js) = Inr (map IntE (sort js))"
  by (induction js) (simp_all add: insort_py_int)

lemma insort_py_str: "insort_py (StrE i) (map StrE js) = Inr (map StrE (insort i js))"
proof (induction js)
  case Nil
  then show ?case by simp
next
  case (Cons j js)
  show ?case
  proof (cases "j < i")
    case True
    then have "\<not> i \<le> j" by simp
    with True Cons show ?thesis by simp
  next
    case False
    then have "i \<le> j" by simp
    with False show ?thesis by simp
  qed
qed

lemma sorted_py_str: "sorted_py (map StrE js) = Inr (map StrE (sort js))"
  by (induction js) (simp_all add: insort_py_str)



lemma sort_result_set:
  assumes "sort_result iter s = Inr elems"
  shows "set elems = set (iter s) \<and> length elems = length (iter s)"
proof (cases "sorted_py (iter s)")
  case (Inl e)
  then have "e = TypeError" by (rule sorted_py_error)
  with Inl assms have "elems = sort_key py_str (iter s)" by (simp add: sort_result_def)
  then show ?thesis by simp
next
  case (Inr ys)
  with assms have "elems = ys" by (simp add: sort_result_def)
  with sorted_py_set [OF Inr] show ?thesis by simp
qed

lemma sort_result_listing:
  assumes "iteration_order iter s" and "sort_result iter s = Inr elems"
  shows "set elems = s \<and> distinct elems"
proof -
  from assms(1) have it: "set (iter s) = s" "distinct (iter s)"
    by (simp_all add: iteration_order_def)
  from sort_result_set [OF assms(2)] have se: "set elems = set (iter s)"
    and le: "length elems = length (iter s)" by simp_all
  from it(2) have "card (set (iter s)) = length (iter s)" by (rule distinct_card)
  with se le have "card (set elems) = length elems" by simp
  then have "distinct elems" by (rule card_distinct)
  with se it(1) show ?thesis by simp
qed

lemma missing_elements_eq:
  "missing_elements num_sets A B C U =
     (A - U) \<union> (B - U) \<union> (if num_sets = 3 then C - U else {})"
  by (simp add: missing_elements_def Let_def)

lemma contains_complement:
  "contains (asc ''Complement'') (asc ''Complement of (A '' @ [cup] @ asc '' B)'')"
  "contains (asc ''Complement'') (asc ''Complement of (A '' @ [cap] @ asc '' B)'')"
  "contains (asc ''Complement'') (asc ''Complement of A'')"
  "contains (asc ''Complement'') (asc ''Complement of B'')"
  "contains (asc ''Complement'') (asc ''Complement of C'')"
  "contains (asc ''Complement'') (asc ''Complement of (A '' @ [cup] @ asc '' B '' @ [cup] @ asc '' C)'')"
  "contains (asc ''Complement'') (asc ''Complement of (A '' @ [cap] @ asc '' B '' @ [cap] @ asc '' C)'')"
  by (simp_all add: chars)

lemma coverage_complement:
  assumes "contains (asc ''Complement'') operation"
    and "format_set iter (missing_elements n A B C U) = Inr t"
  shows "universal_coverage iter n operation A B C U =
           Inr (if missing_elements n A B C U = {} then [] else [missing_message t])"
  using assms by (simp add: universal_coverage_def missing_message_def Let_def)

lemma run_two_complement_A:
  assumes "format_set iter (missing_elements 2 A B {} U) = Inr t"
  shows "venn_two iter (asc ''Complement of A'') A B U color_A color_B =
      Inr \<lparr>set1 = U, set2 = A, colors = (asc ''#CCCCCC'', color_A), result = U - A,
         highlight_ids = [asc ''10''], messages = (if missing_elements 2 A B {} U = {} then [] else [missing_message t])\<rparr>"
  unfolding venn_two_def result_complement_A coverage_complement [OF contains_complement(3) assms]
  by simp

lemma run_two_complement_B:
  assumes "format_set iter (missing_elements 2 A B {} U) = Inr t"
  shows "venn_two iter (asc ''Complement of B'') A B U color_A color_B =
      Inr \<lparr>set1 = U, set2 = B, colors = (asc ''#CCCCCC'', color_B), result = U - B,
         highlight_ids = [asc ''10''], messages = (if missing_elements 2 A B {} U = {} then [] else [missing_message t])\<rparr>"
  unfolding venn_two_def result_complement_B coverage_complement [OF contains_complement(4) assms]
  by simp

lemma run_two_complement_union:
  assumes "format_set iter (missing_elements 2 A B {} U) = Inr t"
  shows "venn_two iter (asc ''Complement of (A '' @ [cup] @ asc '' B)'') A B U color_A color_B =
      Inr \<lparr>set1 = U, set2 = A \<union> B, colors = (asc ''#CCCCCC'', asc ''#888888''), result = U - (A \<union> B),
         highlight_ids = [asc ''10''], messages = (if missing_elements 2 A B {} U = {} then [] else [missing_message t])\<rparr>"
  unfolding venn_two_def result_complement_union coverage_complement [OF contains_complement(1) assms]
  by simp

lemma run_two_complement_inter:
  assumes "format_set iter (missing_elements 2 A B {} U) = Inr t"
  shows "venn_two iter (asc ''Complement of (A '' @ [cap] @ asc '' B)'') A B U color_A color_B =
      Inr \<lparr>set1 = U, set2 = A \<inter> B, colors = (asc ''#CCCCCC'', asc ''#888888''), result = U - (A \<inter> B),
         highlight_ids = [asc ''10''], messages = (if missing_elements 2 A B {} U = {} then [] else [missing_message t])\<rparr>"
  unfolding venn_two_def result_complement_inter coverage_complement [OF contains_complement(2) assms]
  by simp

lemma result3_complement_A:
  "three_set_result (asc ''Complement of A'') A B C U =
     \<lparr>rendered = [U, A], result3 = U - A,
         highlight_ids3 = [asc ''10''], messages3 = []\<rparr>"
  by (simp add: three_set_result_def Let_def chars)

lemma result3_complement_B:
  "three_set_result (asc ''Complement of B'') A B C U =
     \<lparr>rendered = [U, B], result3 = U - B,
         highlight_ids3 = [asc ''10''], messages3 = []\<rparr>"
  by (simp add: three_set_result_def Let_def chars)

lemma result3_complement_C:
  "three_set_result (asc ''Complement of C'') A B C U =
     \<lparr>rendered = [U, C], result3 = U - C,
         highlight_ids3 = [asc ''10''], messages3 = []\<rparr>"
  by (simp add: three_set_result_def Let_def chars)

lemma result3_complement_union:
  "three_set_result (asc ''Complement of (A '' @ [cup] @ asc '' B '' @ [cup] @ asc '' C)'') A B C U =
     \<lparr>rendered = [U, A \<union> B \<union> C], result3 = U - (A \<union> B \<union> C),
         highlight_ids3 = [asc ''10''], messages3 = []\<rparr>"
  by (simp add: three_set_result_def Let_def chars)

lemma result3_complement_inter:
  "three_set_result (asc ''Complement of (A '' @ [cap] @ asc '' B '' @ [cap] @ asc '' C)'') A B C U =
     \<lparr>rendered = [U, A \<inter> B \<inter> C], result3 = U - (A \<inter> B \<inter> C),
         highlight_ids3 = [asc ''10''], messages3 = []\<rparr>"
  by (simp add: three_set_result_def Let_def chars)

lemma run_three_complement_A:
  assumes "format_set iter (missing_elements 3 A B C U) = Inr t"
  shows "venn_three iter (asc ''Complement of A'') A B C U =
      Inr \<lparr>rendered = [U, A], result3 = U - A,
         highlight_ids3 = [asc ''10''], messages3 = (if missing_elements 3 A B C U = {} then [] else [missing_message t])\<rparr>"
  unfolding venn_three_def result3_complement_A
    coverage_complement [OF contains_complement(3) assms]
  by simp

lemma run_three_complement_B:
  assumes "format_set iter (missing_elements 3 A B C U) = Inr t"
  shows "venn_three iter (asc ''Complement of B'') A B C U =
      Inr \<lparr>rendered = [U, B], result3 = U - B,
         highlight_ids3 = [asc ''10''], messages3 = (if missing_elements 3 A B C U = {} then [] else [missing_message t])\<rparr>"
  unfolding venn_three_def result3_complement_B
    coverage_complement [OF contains_complement(4) assms]
  by simp

lemma run_three_complement_C:
  assumes "format_set iter (missing_elements 3 A B C U) = Inr t"
  shows "venn_three iter (asc ''Complement of C'') A B C U =
      Inr \<lparr>rendered = [U, C], result3 = U - C,
         highlight_ids3 = [asc ''10''], messages3 = (if missing_elements 3 A B C U = {} then [] else [missing_message t])\<rparr>"
  unfolding venn_three_def result3_complement_C
    coverage_complement [OF contains_complement(5) assms]
  by simp

lemma run_three_complement_union:
  assumes "format_set iter (missing_elements 3 A B C U) = Inr t"
  shows "venn_three iter (asc ''Complement of (A '' @ [cup] @ asc '' B '' @ [cup] @ asc '' C)'') A B C U =
      Inr \<lparr>rendered = [U, A \<union> B \<union> C], result3 = U - (A \<union> B \<union> C),
         highlight_ids3 = [asc ''10''], messages3 = (if missing_elements 3 A B C U = {} then [] else [missing_message t])\<rparr>"
  unfolding venn_three_def result3_complement_union
    coverage_complement [OF contains_complement(6) assms]
  by simp

lemma run_three_complement_inter:
  assumes "format_set iter (missing_elements 3 A B C U) = Inr t"
  shows "venn_three iter (asc ''Complement of (A '' @ [cap] @ asc '' B '' @ [cap] @ asc '' C)'') A B C U =
      Inr \<lparr>rendered = [U, A \<inter> B \<inter> C], result3 = U - (A \<inter> B \<inter> C),
         highlight_ids3 = [asc ''10''], messages3 = (if missing_elements 3 A B C U = {} then [] else [missing_message t])\<rparr>"
  unfolding venn_three_def result3_complement_inter
    coverage_complement [OF contains_complement(7) assms]
  by simp

text \<open>
  C6. The coverage check collects the elements of \<open>A\<close>, of \<open>B\<close> and, for three sets, of
  \<open>C\<close> that are not in \<open>U\<close>. When the operation is a complement and some element is
  missing, it reports one sidebar message whose text is the formatted set of the missing
  elements (each listed once, when \<open>iter\<close> lists the set); in every other case it reports
  nothing. The check never raises. For each complement operation the run then yields
  \<open>U\<close> without the operand, with \<open>U\<close> as the first rendered set and "10" highlighted,
  whether or not elements are missing: the warning is the only difference. This holds
  for the four complement operations on two sets and, with the dispatch for three sets
  taken from the spec, for the five on three sets.
\<close>

theorem coverage_warning:
  "missing_elements num_sets A B C U =
     (A - U) \<union> (B - U) \<union> (if num_sets = 3 then C - U else {})
   \<and> (\<exists>elems t.
        sort_result iter (missing_elements num_sets A B C U) = Inr elems
        \<and> (iteration_order iter (missing_elements num_sets A B C U) \<longrightarrow>
             set elems = missing_elements num_sets A B C U \<and> distinct elems)
        \<and> format_set iter (missing_elements num_sets A B C U) = Inr t
        \<and> (missing_elements num_sets A B C U \<noteq> {} \<longrightarrow>
             t = asc ''{'' @ join (asc '', '') (map py_str elems) @ asc ''}'')
        \<and> universal_coverage iter num_sets operation A B C U =
            Inr (if contains (asc ''Complement'') operation
                    \<and> missing_elements num_sets A B C U \<noteq> {}
                 then [missing_message t] else []))
   \<and> (\<exists>t. format_set iter (missing_elements 2 A B {} U) = Inr t
        \<and> venn_two iter (asc ''Complement of A'') A B U color_A color_B =
            Inr \<lparr>set1 = U, set2 = A, colors = (asc ''#CCCCCC'', color_A), result = U - A,
            highlight_ids = [asc ''10''], messages = (if missing_elements 2 A B {} U = {} then [] else [missing_message t])\<rparr>
        \<and> venn_two iter (asc ''Complement of B'') A B U color_A color_B =
            Inr \<lparr>set1 = U, set2 = B, colors = (asc ''#CCCCCC'', color_B), result = U - B,
            highlight_ids = [asc ''10''], messages = (if missing_elements 2 A B {} U = {} then [] else [missing_message t])\<rparr>
        \<and> venn_two iter (asc ''Complement of (A '' @ [cup] @ asc '' B)'') A B U color_A color_B =
            Inr \<lparr>set1 = U, set2 = A \<union> B, colors = (asc ''#CCCCCC'', asc ''#888888''), result = U - (A \<union> B),
            highlight_ids = [asc ''10''], messages = (if missing_elements 2 A B {} U = {} then [] else [missing_message t])\<rparr>
        \<and> venn_two iter (asc ''Complement of (A '' @ [cap] @ asc '' B)'') A B U color_A color_B =
            Inr \<lparr>set1 = U, set2 = A \<inter> B, colors = (asc ''#CCCCCC'', asc ''#888888''), result = U - (A \<inter> B),
            highlight_ids = [asc ''10''], messages = (if missing_elements 2 A B {} U = {} then [] else [missing_message t])\<rparr>)
   \<and> (\<exists>t. format_set iter (missing_elements 3 A B C U) = Inr t
        \<and> venn_three iter (asc ''Complement of A'') A B C U =
            Inr \<lparr>rendered = [U, A], result3 = U - A,
            highlight_ids3 = [asc ''10''], messages3 = (if missing_elements 3 A B C U = {} then [] else [missing_message t])\<rparr>
        \<and> venn_three iter (asc ''Complement of B'') A B C U =
            Inr \<lparr>rendered = [U, B], result3 = U - B,
            highlight_ids3 = [asc ''10''], messages3 = (if missing_elements 3 A B C U = {} then [] else [missing_message t])\<rparr>
        \<and> venn_three iter (asc ''Complement of C'') A B C U =
            Inr \<lparr>rendered = [U, C], result3 = U - C,
            highlight_ids3 = [asc ''10''], messages3 = (if missing_elements 3 A B C U = {} then [] else [missing_message t])\<rparr>
        \<and> venn_three iter (asc ''Complement of (A '' @ [cup] @ asc '' B '' @ [cup] @ asc '' C)'') A B C U =
            Inr \<lparr>rendered = [U, A \<union> B \<union> C], result3 = U - (A \<union> B \<union> C),
            highlight_ids3 = [asc ''10''], messages3 = (if missing_elements 3 A B C U = {} then [] else [missing_message t])\<rparr>
        \<and> venn_three iter (asc ''Complement of (A '' @ [cap] @ asc '' B '' @ [cap] @ asc '' C)'') A B C U =
            Inr \<lparr>rendered = [U, A \<inter> B \<inter> C], result3 = U - (A \<inter> B \<inter> C),
            highlight_ids3 = [asc ''10''], messages3 = (if missing_elements 3 A B C U = {} then [] else [missing_message t])\<rparr>)"
proof -
  let ?m = "missing_elements num_sets A B C U"
  obtain elems where el: "sort_result iter ?m = Inr elems"
    using sort_result_total by blast
  obtain t where t: "format_set iter ?m = Inr t"
    using format_set_total by blast
  have l: "iteration_order iter ?m \<longrightarrow> set elems = ?m \<and> distinct elems"
    using sort_result_listing [OF _ el] by blast
  have f: "?m \<noteq> {} \<longrightarrow> t = asc ''{'' @ join (asc '', '') (map py_str elems) @ asc ''}''"
    using el t by (auto simp: format_set_def split: if_splits)
  have u: "universal_coverage iter num_sets operation A B C U =
            Inr (if contains (asc ''Complement'') operation \<and> ?m \<noteq> {}
                 then [missing_message t] else [])"
    using t by (simp add: universal_coverage_def missing_message_def Let_def)
  have G: "(\<exists>elems t.
        sort_result iter (missing_elements num_sets A B C U) = Inr elems
        \<and> (iteration_order iter (missing_elements num_sets A B C U) \<longrightarrow>
             set elems = missing_elements num_sets A B C U \<and> distinct elems)
        \<and> format_set iter (missing_elements num_sets A B C U) = Inr t
        \<and> (missing_elements num_sets A B C U \<noteq> {} \<longrightarrow>
             t = asc ''{'' @ join (asc '', '') (map py_str elems) @ asc ''}'')
        \<and> universal_coverage iter num_sets operation A B C U =
            Inr (if contains (asc ''Complement'') operation
                    \<and> missing_elements num_sets A B C U \<noteq> {}
                 then [missing_message t] else []))"
    by (rule exI [of _ elems], rule exI [of _ t]) (rule conjI el l t f u)+
  obtain t2 where t2: "format_set iter (missing_elements 2 A B {} U) = Inr t2"
    using format_set_total by blast
  have T: "(\<exists>t. format_set iter (missing_elements 2 A B {} U) = Inr t
        \<and> venn_two iter (asc ''Complement of A'') A B U color_A color_B =
            Inr \<lparr>set1 = U, set2 = A, colors = (asc ''#CCCCCC'', color_A), result = U - A,
            highlight_ids = [asc ''10''], messages = (if missing_elements 2 A B {} U = {} then [] else [missing_message t])\<rparr>
        \<and> venn_two iter (asc ''Complement of B'') A B U color_A color_B =
            Inr \<lparr>set1 = U, set2 = B, colors = (asc ''#CCCCCC'', color_B), result = U - B,
            highlight_ids = [asc ''10''], messages = (if missing_elements 2 A B {} U = {} then [] else [missing_message t])\<rparr>
        \<and> venn_two iter (asc ''Complement of (A '' @ [cup] @ asc '' B)'') A B U color_A color_B =
            Inr \<lparr>set1 = U, set2 = A \<union> B, colors = (asc ''#CCCCCC'', asc ''#888888''), result = U - (A \<union> B),
            highlight_ids = [asc ''10''], messages = (if missing_elements 2 A B {} U = {} then [] else [missing_message t])\<rparr>
        \<and> venn_two iter (asc ''Complement of (A '' @ [cap] @ asc '' B)'') A B U color_A color_B =
            Inr \<lparr>set1 = U, set2 = A \<inter> B, colors = (asc ''#CCCCCC'', asc ''#888888''), result = U - (A \<inter> B),
            highlight_ids = [asc ''10''], messages = (if missing_elements 2 A B {} U = {} then [] else [missing_message t])\<rparr>)"
    by (rule exI [of _ t2])
      (rule conjI t2 run_two_complement_A [OF t2] run_two_complement_B [OF t2]
        run_two_complement_union [OF t2] run_two_complement_inter [OF t2])+
  obtain t3 where t3: "format_set iter (missing_elements 3 A B C U) = Inr t3"
    using format_set_total by blast
  have H: "(\<exists>t. format_set iter (missing_elements 3 A B C U) = Inr t
        \<and> venn_three iter (asc ''Complement of A'') A B C U =
            Inr \<lparr>rendered = [U, A], result3 = U - A,
            highlight_ids3 = [asc ''10''], messages3 = (if missing_elements 3 A B C U = {} then [] else [missing_message t])\<rparr>
        \<and> venn_three iter (asc ''Complement of B'') A B C U =
            Inr \<lparr>rendered = [U, B], result3 = U - B,
            highlight_ids3 = [asc ''10''], messages3 = (if missing_elements 3 A B C U = {} then [] else [missing_message t])\<rparr>
        \<and> venn_three iter (asc ''Complement of C'') A B C U =
            Inr \<lparr>rendered = [U, C], result3 = U - C,
            highlight_ids3 = [asc ''10''], messages3 = (if missing_elements 3 A B C U = {} then [] else [missing_message t])\<rparr>
        \<and> venn_three iter (asc ''Complement of (A '' @ [cup] @ asc '' B '' @ [cup] @ asc '' C)'') A B C U =
            Inr \<lparr>rendered = [U, A \<union> B \<union> C], result3 = U - (A \<union> B \<union> C),
            highlight_ids3 = [asc ''10''], messages3 = (if missing_elements 3 A B C U = {} then [] else [missing_message t])\<rparr>
        \<and> venn_three iter (asc ''Complement of (A '' @ [cap] @ asc '' B '' @ [cap] @ asc '' C)'') A B C U =
            Inr \<lparr>rendered = [U, A \<inter> B \<inter> C], result3 = U - (A \<inter> B \<inter> C),
            highlight_ids3 = [asc ''10''], messages3 = (if missing_elements 3 A B C U = {} then [] else [missing_message t])\<rparr>)"
    by (rule exI [of _ t3])
      (rule conjI t3 run_three_complement_A [OF t3] run_three_complement_B [OF t3]
        run_three_complement_C [OF t3] run_three_complement_union [OF t3]
        run_three_complement_inter [OF t3])+
  show ?thesis
    by (rule conjI missing_elements_eq G T H)+
qed

theorem coverage_warning_witness:
  "iteration_order (\<lambda>s. [IntE 3, IntE 9])
     (missing_elements 2 {IntE 2, IntE 9} {IntE 3} {} {IntE 1, IntE 2})
   \<and> missing_elements 2 {IntE 2, IntE 9} {IntE 3} {} {IntE 1, IntE 2} = {IntE 3, IntE 9}
   \<and> venn_two (\<lambda>s. [IntE 3, IntE 9]) (asc ''Complement of A'')
        {IntE 2, IntE 9} {IntE 3} {IntE 1, IntE 2} (asc ''#FF5733'') (asc ''#33C1FF'') =
      Inr \<lparr>set1 = {IntE 1, IntE 2}, set2 = {IntE 2, IntE 9},
           colors = (asc ''#CCCCCC'', asc ''#FF5733''), result = {IntE 1},
           highlight_ids = [asc ''10''],
           messages = [Sidebar_error
            (asc ''Universal set missing elements: {3, 9}. Complements may be incomplete.'')]\<rparr>"
proof -
  let ?it = "\<lambda>s::elem set. [IntE 3, IntE 9]"
  have m: "missing_elements 2 {IntE 2, IntE 9} {IntE 3} {} {IntE 1, IntE 2} = {IntE 3, IntE 9}"
    by (auto simp: missing_elements_def)
  have io: "iteration_order ?it {IntE 3, IntE 9}"
    by (auto simp: iteration_order_def)
  have fs: "format_set ?it {IntE 3, IntE 9} = Inr (asc ''{3, 9}'')"
    by (simp add: format_set_def sort_result_def str_int_def str_nat.simps chars)
  have r: "{IntE 1, IntE 2} - {IntE 2, IntE 9} = {IntE 1}" by auto
  have mm: "missing_message (asc ''{3, 9}'') = Sidebar_error
            (asc ''Universal set missing elements: {3, 9}. Complements may be incomplete.'')"
    by (simp add: missing_message_def chars)
  from conjunct1 [OF conjunct2 [OF conjunct2 [OF coverage_warning
      [of 2 "{IntE 2, IntE 9}" "{IntE 3}" "{}" "{IntE 1, IntE 2}" ?it "asc ''Complement of A''"
        "asc ''#FF5733''" "asc ''#33C1FF''"]]]]
  obtain t where t: "format_set ?it (missing_elements 2 {IntE 2, IntE 9} {IntE 3} {} {IntE 1, IntE 2}) = Inr t"
    and v: "venn_two ?it (asc ''Complement of A'')
        {IntE 2, IntE 9} {IntE 3} {IntE 1, IntE 2} (asc ''#FF5733'') (asc ''#33C1FF'') =
      Inr \<lparr>set1 = {IntE 1, IntE 2}, set2 = {IntE 2, IntE 9},
           colors = (asc ''#CCCCCC'', asc ''#FF5733''),
           result = {IntE 1, IntE 2} - {IntE 2, IntE 9},
           highlight_ids = [asc ''10''],
           messages = (if missing_elements 2 {IntE 2, IntE 9} {IntE 3} {} {IntE 1, IntE 2} = {}
                       then [] else [missing_message t])\<rparr>"
    by blast
  from t have "t = asc ''{3, 9}''" unfolding m fs by simp
  with v have "venn_two ?it (asc ''Complement of A'')
        {IntE 2, IntE 9} {IntE 3} {IntE 1, IntE 2} (asc ''#FF5733'') (asc ''#33C1FF'') =
      Inr \<lparr>set1 = {IntE 1, IntE 2}, set2 = {IntE 2, IntE 9},
           colors = (asc ''#CCCCCC'', asc ''#FF5733''), result = {IntE 1},
           highlight_ids = [asc ''10''],
           messages = [Sidebar_error
            (asc ''Universal set missing elements: {3, 9}. Complements may be incomplete.'')]\<rparr>"
    unfolding m r using mm by simp
  with io m show ?thesis by simp
qed

section \<open>The operation menus\<close>









section \<open>Parsing\<close>

subsection \<open>Runs of a character class\<close>

lemma drop_run:
  "list_all P w \<Longrightarrow> r = [] \<or> \<not> P (hd r) \<Longrightarrow> dropWhile P (w @ r) = r"
  by (induction w) (auto, cases r, auto)

lemma take_run:
  "list_all P w \<Longrightarrow> r = [] \<or> \<not> P (hd r) \<Longrightarrow> takeWhile P (w @ r) = w"
  by (induction w) (auto, cases r, auto)

lemma minus_not_space: "\<not> isspace minus_sign"
  by (simp add: isspace_def minus_sign_def)

lemma minus_not_decimal: "\<not> isdecimal nd minus_sign"
  by (simp add: isdecimal_def todecimal_def minus_sign_def)

lemma decimal_not_space: "isdecimal nd c \<Longrightarrow> \<not> isspace c"
  by (auto simp: isdecimal_def todecimal_def isspace_def split: if_splits)

subsection \<open>The scanner finds exactly the matches of the pattern\<close>

lemma opt_minus_digits:
  assumes "ds \<noteq> []" and "list_all (isdecimal nd) ds"
  shows "opt_minus (ds @ r) = ([], ds @ r)" and "opt_minus (minus_sign # ds @ r) = ([minus_sign], ds @ r)"
proof -
  from assms obtain d ds' where ds: "ds = d # ds'" and d: "isdecimal nd d"
    by (cases ds) auto
  from d have "d \<noteq> minus_sign" using minus_not_decimal by blast
  with ds show "opt_minus (ds @ r) = ([], ds @ r)" by (simp add: opt_minus_def)
  show "opt_minus (minus_sign # ds @ r) = ([minus_sign], ds @ r)" by (simp add: opt_minus_def)
qed

lemma scan_group_complete:
  assumes w: "list_all isspace w" and g: "signed_digits nd g" and w': "list_all isspace w'"
    and r: "r = [] \<or> (\<not> isspace (hd r) \<and> \<not> isdecimal nd (hd r))"
  shows "scan_group nd (w @ g @ w' @ r) = Some (g, r)"
proof -
  from g obtain ds where ds: "ds \<noteq> []" "list_all (isdecimal nd) ds"
    and gd: "g = ds \<or> g = minus_sign # ds"
    by (auto simp: signed_digits_def)
  from ds have hd_ds: "isdecimal nd (hd ds)" by (cases ds) auto
  have g_ne: "g \<noteq> []" and hd_g: "\<not> isspace (hd g)"
    using gd ds(1) hd_ds decimal_not_space minus_not_space by auto
  have 1: "dropWhile isspace (w @ g @ w' @ r) = g @ w' @ r"
    using drop_run [OF w, of "g @ w' @ r"] g_ne hd_g by simp
  have 2: "opt_minus (g @ w' @ r) = (if g = ds then [] else [minus_sign], ds @ w' @ r)"
    using gd opt_minus_digits [OF ds, of "w' @ r"] ds(1) hd_ds minus_not_decimal
    by (cases ds) auto
  have wr: "w' @ r = [] \<or> \<not> isdecimal nd (hd (w' @ r))"
  proof (cases w')
    case Nil
    with r show ?thesis by auto
  next
    case (Cons c cs)
    with w' have "isspace c" by simp
    then have "\<not> isdecimal nd c" using decimal_not_space by blast
    with Cons show ?thesis by simp
  qed
  have 3: "takeWhile (isdecimal nd) (ds @ w' @ r) = ds"
    using take_run [OF ds(2), of "w' @ r"] wr by simp
  have 4: "dropWhile (isdecimal nd) (ds @ w' @ r) = w' @ r"
    using drop_run [OF ds(2), of "w' @ r"] wr by simp
  have 5: "dropWhile isspace (w' @ r) = r"
    using drop_run [OF w', of r] r by auto
  have 6: "(if g = ds then [] else [minus_sign]) @ ds = g"
    using gd by auto
  show ?thesis
    unfolding scan_group_def 1 2 using 3 4 5 6 ds(1) by simp
qed

lemma scan_group_sound:
  assumes "scan_group nd txt = Some (g, r)"
  shows "\<exists>w w'. list_all isspace w \<and> list_all isspace w' \<and> signed_digits nd g \<and>
           txt = w @ g @ w' @ r \<and> (r = [] \<or> \<not> isspace (hd r))"
proof -
  define t0 where "t0 = dropWhile isspace txt"
  obtain s r1 where om: "opt_minus t0 = (s, r1)" by (cases "opt_minus t0") auto
  define d where "d = takeWhile (isdecimal nd) r1"
  define t2 where "t2 = dropWhile (isdecimal nd) r1"
  from assms om have dne: "d \<noteq> []" and gs: "g = s @ d" and rr: "r = dropWhile isspace t2"
    by (auto simp: scan_group_def t0_def d_def t2_def Let_def split: if_splits)
  have s: "t0 = s @ r1 \<and> (s = [] \<or> s = [minus_sign])"
    using om by (auto simp: opt_minus_def split: list.splits if_splits)
  have tx: "txt = takeWhile isspace txt @ t0" by (simp add: t0_def)
  have r1: "r1 = d @ t2" by (simp add: d_def t2_def)
  have t2: "t2 = takeWhile isspace t2 @ r" by (simp add: rr)
  have dd: "list_all (isdecimal nd) d"
    by (auto simp: d_def list_all_iff dest: set_takeWhileD)
  have sd: "signed_digits nd g"
    unfolding signed_digits_def using dne dd gs s by auto
  have w1: "list_all isspace (takeWhile isspace txt)"
    by (auto simp: list_all_iff dest: set_takeWhileD)
  have w2: "list_all isspace (takeWhile isspace t2)"
    by (auto simp: list_all_iff dest: set_takeWhileD)
  have hr: "r = [] \<or> \<not> isspace (hd r)"
    unfolding rr using hd_dropWhile [of isspace t2] by blast
  have "txt = takeWhile isspace txt @ g @ takeWhile isspace t2 @ r"
    using tx s r1 t2 gs by (metis append.assoc)
  with w1 w2 sd hr show ?thesis by blast
qed

lemma range_match_iff:
  "range_match nd txt = Some (g1, g2) \<longleftrightarrow> range_pattern nd txt g1 g2"
proof
  assume m: "range_match nd txt = Some (g1, g2)"
  then obtain r r' where a: "scan_group nd txt = Some (g1, r)" and r: "r = minus_sign # r'"
    and b: "scan_group nd r' = Some (g2, [])"
    by (auto simp: range_match_def split: option.splits list.splits if_splits)
  from scan_group_sound [OF a] obtain w1 w2 where 1: "list_all isspace w1" "list_all isspace w2"
    "signed_digits nd g1" "txt = w1 @ g1 @ w2 @ r" by blast
  from scan_group_sound [OF b] obtain w3 w4 where 2: "list_all isspace w3" "list_all isspace w4"
    "signed_digits nd g2" "r' = w3 @ g2 @ w4 @ []" by blast
  from 1 2 r have "txt = w1 @ g1 @ w2 @ [minus_sign] @ w3 @ g2 @ w4" by simp
  with 1 2 show "range_pattern nd txt g1 g2"
    unfolding range_pattern_def by blast
next
  assume "range_pattern nd txt g1 g2"
  then obtain w1 w2 w3 w4 where w: "list_all isspace w1" "list_all isspace w2"
      "list_all isspace w3" "list_all isspace w4"
    and g: "signed_digits nd g1" "signed_digits nd g2"
    and tx: "txt = w1 @ g1 @ w2 @ [minus_sign] @ w3 @ g2 @ w4"
    unfolding range_pattern_def by blast
  have a: "scan_group nd (w1 @ g1 @ w2 @ (minus_sign # w3 @ g2 @ w4)) =
             Some (g1, minus_sign # w3 @ g2 @ w4)"
    using scan_group_complete [OF w(1) g(1) w(2), of "minus_sign # w3 @ g2 @ w4"]
      minus_not_space minus_not_decimal by simp
  have b: "scan_group nd (w3 @ g2 @ w4) = Some (g2, [])"
    using scan_group_complete [OF w(3) g(2) w(4), of "[]"] by simp
  show "range_match nd txt = Some (g1, g2)"
    unfolding range_match_def tx using a b by simp
qed

subsection \<open>\<open>int\<close> on digit strings\<close>

lemma int_digits_error: "int_digits nd prev acc s = Inl e \<Longrightarrow> e = ValueError"
  by (induction nd prev acc s rule: int_digits.induct) (auto split: if_splits option.splits)

lemma int_value_error: "int_value nd cs = Inl e \<Longrightarrow> e = ValueError"
  by (auto simp: int_value_def split: sum.splits if_splits dest: int_digits_error)

lemma py_int_error: "py_int nd s = Inl e \<Longrightarrow> e = ValueError"
  unfolding py_int_def
  by (auto split: list.splits if_splits sum.splits dest: int_value_error)

lemma strip_with_id:
  "s \<noteq> [] \<Longrightarrow> \<not> ws (hd s) \<Longrightarrow> \<not> ws (last s) \<Longrightarrow> strip_with ws s = s"
proof -
  assume s: "s \<noteq> []" and h: "\<not> ws (hd s)" and l: "\<not> ws (last s)"
  from s h have "dropWhile ws s = s" by (cases s) auto
  moreover from s l have "dropWhile ws (rev s) = rev s"
    by (cases "rev s") (auto simp: last_rev [symmetric] simp del: last_rev)
  ultimately show ?thesis by (simp add: strip_with_def)
qed

lemma int_digits_decimal:
  "list_all (isdecimal nd) ds \<Longrightarrow> ds \<noteq> [] \<or> (prev \<noteq> None \<and> prev \<noteq> Some underscore) \<Longrightarrow>
   \<exists>n. int_digits nd prev acc ds = Inr n"
proof (induction ds arbitrary: prev acc)
  case Nil
  then show ?case by auto
next
  case (Cons d ds)
  from Cons.prems have dd: "isdecimal nd d" and ds: "list_all (isdecimal nd) ds" by simp_all
  from dd obtain v where v: "todecimal nd d = Some v" by (auto simp: isdecimal_def)
  then have nu: "d \<noteq> underscore" by (auto simp: todecimal_def underscore_def split: if_splits)
  from Cons.IH [OF ds, of "Some d" "10 * acc + v"] nu
  obtain n where "int_digits nd (Some d) (10 * acc + v) ds = Inr n" by auto
  then show ?case using nu v by simp
qed

lemma decimal_not_int_space: "isdecimal nd c \<Longrightarrow> \<not> int_space c"
  using decimal_not_space by (auto simp: int_space_def)

lemma decimal_not_underscore: "isdecimal nd c \<Longrightarrow> c \<noteq> underscore"
  by (auto simp: isdecimal_def todecimal_def underscore_def)

lemma digits_no_underscore:
  "list_all (isdecimal nd) ds \<Longrightarrow> filter (\<lambda>c. c \<noteq> underscore) ds = ds"
  by (induction ds) (auto dest: decimal_not_underscore)

lemma int_value_decimal:
  assumes "list_all (isdecimal nd) ds" and "ds \<noteq> []"
  shows "\<exists>n. int_value nd ds =
           (if int_max_str_digits < length ds then Inl ValueError else Inr n)"
proof -
  obtain n where "int_digits nd None 0 ds = Inr n"
    using int_digits_decimal [OF assms(1), of None 0] assms(2) by auto
  then have "int_value nd ds =
           (if int_max_str_digits < length ds then Inl ValueError else Inr n)"
    by (simp add: int_value_def digits_no_underscore [OF assms(1)])
  then show ?thesis by (rule exI)
qed

lemma py_int_signed_digits:
  assumes "signed_digits nd g"
  shows "\<exists>n. py_int nd g =
           (if int_max_str_digits < length (digits_of g) then Inl ValueError else Inr n)"
proof -
  from assms obtain ds where ds: "ds \<noteq> []" "list_all (isdecimal nd) ds"
    and gd: "g = ds \<or> g = minus_sign # ds"
    by (auto simp: signed_digits_def)
  from ds have h: "isdecimal nd (hd ds)" and l: "isdecimal nd (last ds)"
    by (auto simp: list_all_iff)
  obtain n where n: "int_value nd ds =
           (if int_max_str_digits < length ds then Inl ValueError else Inr n)"
    using int_value_decimal [OF ds(2) ds(1)] by blast
  from gd show ?thesis
  proof
    assume g: "g = ds"
    then have st: "strip_with int_space g = ds"
      using strip_with_id [of ds int_space] ds(1) h l decimal_not_int_space by auto
    obtain c cs where c: "ds = c # cs" using ds(1) by (cases ds) auto
    with h have ns: "c \<noteq> minus_sign" "c \<noteq> plus_sign"
      by (auto simp: isdecimal_def todecimal_def minus_sign_def plus_sign_def)
    from ns c g have dg: "digits_of g = ds" by (simp add: digits_of_def)
    have "py_int nd g =
           (if int_max_str_digits < length ds then Inl ValueError else Inr (int n))"
      using st c ns n by (simp add: py_int_def)
    then show ?thesis unfolding dg by (rule exI)
  next
    assume g: "g = minus_sign # ds"
    have "\<not> int_space minus_sign" by (simp add: int_space_def isspace_def minus_sign_def)
    then have st: "strip_with int_space g = minus_sign # ds"
      using strip_with_id [of g int_space] g ds(1) l decimal_not_int_space by auto
    from g have dg: "digits_of g = ds" by (simp add: digits_of_def)
    have "py_int nd g =
           (if int_max_str_digits < length ds then Inl ValueError else Inr (- int n))"
      using st n by (simp add: py_int_def)
    then show ?thesis unfolding dg by (rule exI)
  qed
qed

subsection \<open>The two modes of \<open>parse_universal\<close>\<close>

lemma no_match_None:
  "(\<forall>g1 g2. \<not> range_pattern nd txt g1 g2) \<Longrightarrow> range_match nd txt = None"
proof (cases "range_match nd txt")
  case None
  then show ?thesis by simp
next
  case (Some p)
  assume n: "\<forall>g1 g2. \<not> range_pattern nd txt g1 g2"
  obtain g1 g2 where "p = (g1, g2)" by (cases p) auto
  with Some have "range_pattern nd txt g1 g2" by (simp add: range_match_iff)
  with n show ?thesis by blast
qed

lemma parse_universal_range:
  assumes "range_pattern nd (strip txt) g1 g2"
    and "length (digits_of g1) \<le> int_max_str_digits"
    and "length (digits_of g2) \<le> int_max_str_digits"
  shows "\<exists>a b. py_int nd g1 = Inr a \<and> py_int nd g2 = Inr b \<and>
           parse_universal nd txt = Inr (IntE ` {min a b..max a b})"
proof -
  from assms(1) have m: "range_match nd (strip txt) = Some (g1, g2)"
    by (simp add: range_match_iff)
  from assms(1) have sd: "signed_digits nd g1" "signed_digits nd g2"
    by (auto simp: range_pattern_def)
  from py_int_signed_digits [OF sd(1)] assms(2) obtain a where a: "py_int nd g1 = Inr a"
    by auto
  from py_int_signed_digits [OF sd(2)] assms(3) obtain b where b: "py_int nd g2 = Inr b"
    by auto
  have "parse_universal nd txt = Inr (IntE ` {min a b..max a b})"
    using m a b by (simp add: parse_universal_def min_def max_def)
  with a b show ?thesis by blast
qed

lemma parse_universal_over_limit:
  assumes "range_pattern nd (strip txt) g1 g2"
    and "int_max_str_digits < length (digits_of g1) \<or> int_max_str_digits < length (digits_of g2)"
  shows "parse_universal nd txt = Inl ValueError"
proof -
  from assms(1) have m: "range_match nd (strip txt) = Some (g1, g2)"
    by (simp add: range_match_iff)
  from assms(1) have sd: "signed_digits nd g1" "signed_digits nd g2"
    by (auto simp: range_pattern_def)
  from py_int_signed_digits [OF sd(1)] obtain a where a: "py_int nd g1 =
      (if int_max_str_digits < length (digits_of g1) then Inl ValueError else Inr a)" by blast
  from py_int_signed_digits [OF sd(2)] obtain b where b: "py_int nd g2 =
      (if int_max_str_digits < length (digits_of g2) then Inl ValueError else Inr b)" by blast
  show ?thesis
    using m a b assms(2) by (auto simp: parse_universal_def)
qed

lemma parse_universal_fallback:
  assumes "\<forall>g1 g2. \<not> range_pattern nd (strip txt) g1 g2"
  shows "parse_universal nd txt = parse_set nd (strip txt)"
  using no_match_None [OF assms] by (simp add: parse_universal_def)

lemmas eval_defs = parse_universal_def range_match_def scan_group_def opt_minus_def strip_def
  strip_with_def isspace_def isdecimal_def todecimal_def py_int_def int_value_def
  int_max_str_digits_def int_space_def parse_set_def split_comma_def parse_element_def Let_def

lemma upto_3_7: "{3..7::int} = {3, 4, 5, 6, 7}"
  by (auto; arith)

lemma universal_3_7: "parse_universal nd (asc ''3-7'') = Inr {IntE 3, IntE 4, IntE 5, IntE 6, IntE 7}"
  by (simp add: eval_defs chars upto_3_7)

lemma universal_7_3: "parse_universal nd (asc ''7-3'') = Inr {IntE 3, IntE 4, IntE 5, IntE 6, IntE 7}"
  by (simp add: eval_defs chars upto_3_7)

lemma universal_5_10: "parse_universal nd (asc ''5,10'') = Inr {IntE 5, IntE 10}"
  by (simp add: eval_defs chars insert_commute)

lemma long_group:
  assumes "int_max_str_digits \<le> n"
  shows "range_pattern nd (strip (asc ''1-'' @ replicate n 48 @ asc ''3''))
           (asc ''1'') (replicate n 48 @ asc ''3'')
         \<and> parse_universal nd (asc ''1-'' @ replicate n 48 @ asc ''3'') = Inl ValueError"
proof -
  let ?g = "replicate n 48 @ asc ''3''"
  let ?t = "asc ''1-'' @ ?g"
  have sp: "\<not> isspace 49" "\<not> isspace 51" by (simp_all add: isspace_def)
  have "strip_with isspace ?t = ?t"
    by (rule strip_with_id) (simp_all add: chars sp)
  then have st: "strip ?t = ?t" by (simp add: strip_def)
  have d: "isdecimal nd 48" "isdecimal nd 49" "isdecimal nd 51"
    by (simp_all add: isdecimal_def todecimal_def)
  have g1: "signed_digits nd (asc ''1'')"
    unfolding signed_digits_def by (rule exI [of _ "asc ''1''"]) (simp add: chars d)
  have g2: "signed_digits nd ?g"
    unfolding signed_digits_def by (rule exI [of _ ?g]) (simp add: chars d list_all_iff)
  have "?t = [] @ asc ''1'' @ [] @ [minus_sign] @ [] @ ?g @ []" by (simp add: chars)
  then have rp: "range_pattern nd ?t (asc ''1'') ?g"
    unfolding range_pattern_def using g1 g2 by (intro exI [of _ "[]"]) simp
  have "digits_of ?g = ?g"
    by (cases n) (simp_all add: digits_of_def chars)
  then have "int_max_str_digits < length (digits_of ?g)"
    using assms by (simp add: chars)
  then have "parse_universal nd ?t = Inl ValueError"
    using parse_universal_over_limit [of nd ?t "asc ''1''" ?g] rp st by simp
  with rp st show ?thesis by simp
qed

text \<open>
  C5, as stated: whenever the pattern matches, the result would be the range. The text
  "1-" followed by 4300 zeros and "3" matches the pattern, its second bound being 3
  written with 4301 digits, and \<open>int\<close> raises \<open>ValueError\<close> on that bound;
  \<open>parse_universal\<close> does not catch it and returns no set.
\<close>

theorem parse_universal_limit_counterexample:
  "range_pattern no_other_digits (strip (asc ''1-'' @ replicate 4300 48 @ asc ''3''))
     (asc ''1'') (replicate 4300 48 @ asc ''3'')
   \<and> parse_universal no_other_digits (asc ''1-'' @ replicate 4300 48 @ asc ''3'') = Inl ValueError"
  by (rule long_group) (simp add: int_max_str_digits_def)

text \<open>
  C5, amended. \<open>parse_universal\<close> tests the stripped text against the range pattern
  first. When the pattern matches with the groups \<open>g1\<close> and \<open>g2\<close> and neither group has
  more digits than \<open>int\<close> accepts (4300), both groups convert to integers and the result
  is the set of all integers between the smaller and the larger of them, whichever was
  written first. Only when the pattern does not match is the result that of
  \<open>parse_set\<close>. So "5,10" gives the two elements 5 and 10, and "3-7" and "7-3" both give
  the integers from 3 to 7. The scanner \<open>range_match\<close> succeeds exactly on the strings
  the pattern describes.
\<close>

theorem parse_universal_spec:
  "(range_pattern nd (strip txt) g1 g2
      \<and> length (digits_of g1) \<le> 4300 \<and> length (digits_of g2) \<le> 4300 \<longrightarrow>
      (\<exists>a b. py_int nd g1 = Inr a \<and> py_int nd g2 = Inr b \<and>
             parse_universal nd txt = Inr (IntE ` {min a b..max a b})))
   \<and> ((\<forall>g1 g2. \<not> range_pattern nd (strip txt) g1 g2) \<longrightarrow>
        parse_universal nd txt = parse_set nd (strip txt))
   \<and> (range_match nd (strip txt) = Some (g1, g2) \<longleftrightarrow> range_pattern nd (strip txt) g1 g2)
   \<and> parse_universal nd (asc ''5,10'') = Inr {IntE 5, IntE 10}
   \<and> parse_universal nd (asc ''3-7'') = Inr {IntE 3, IntE 4, IntE 5, IntE 6, IntE 7}
   \<and> parse_universal nd (asc ''7-3'') = Inr {IntE 3, IntE 4, IntE 5, IntE 6, IntE 7}"
  using parse_universal_range [of nd "txt" g1 g2, unfolded int_max_str_digits_def]
    parse_universal_fallback [of nd "txt"]
    range_match_iff [of nd "strip txt" g1 g2] universal_5_10 [of nd] universal_3_7 [of nd]
    universal_7_3 [of nd]
  by blast

theorem parse_universal_spec_witness:
  "range_pattern no_other_digits (strip (asc '' 7 - -3 '')) (asc ''7'') (asc ''-3'')
   \<and> length (digits_of (asc ''7'')) \<le> 4300
   \<and> length (digits_of (asc ''-3'')) \<le> 4300
   \<and> parse_universal no_other_digits (asc '' 7 - -3 '') = Inr (IntE ` {- 3..7})
   \<and> (\<forall>g1 g2. \<not> range_pattern no_other_digits (strip (asc ''5,10'')) g1 g2)
   \<and> parse_universal no_other_digits (asc ''5,10'') =
       parse_set no_other_digits (strip (asc ''5,10''))"
proof -
  have m: "range_match no_other_digits (strip (asc '' 7 - -3 '')) = Some (asc ''7'', asc ''-3'')"
    by (simp add: eval_defs chars)
  then have p: "range_pattern no_other_digits (strip (asc '' 7 - -3 '')) (asc ''7'') (asc ''-3'')"
    by (simp add: range_match_iff)
  have l: "length (digits_of (asc ''7'')) \<le> 4300"
    "length (digits_of (asc ''-3'')) \<le> 4300"
    by (simp_all add: digits_of_def chars)
  have a: "py_int no_other_digits (asc ''7'') = Inr 7"
    "py_int no_other_digits (asc ''-3'') = Inr (- 3)"
    by (simp_all add: eval_defs chars)
  have n: "range_match no_other_digits (strip (asc ''5,10'')) = None"
    by (simp add: eval_defs chars)
  have q: "\<forall>g1 g2. \<not> range_pattern no_other_digits (strip (asc ''5,10'')) g1 g2"
    using n by (simp add: range_match_iff [symmetric])
  from parse_universal_spec [of no_other_digits "asc '' 7 - -3 ''" "asc ''7''" "asc ''-3''"]
    parse_universal_spec [of no_other_digits "asc ''5,10''"]
  show ?thesis using p l a q by auto
qed

section \<open>The element parser\<close>

lemma parse_element_total: "\<exists>v. parse_element nd x = Inr v"
  by (auto simp: parse_element_def Let_def split: sum.splits py_error.splits dest: py_int_error)

lemma strip_with_empty: "strip_with ws s = [] \<longleftrightarrow> (\<forall>c\<in>set s. ws c)"
proof
  assume "strip_with ws s = []"
  then have "\<forall>c\<in>set (dropWhile ws s). ws c" by (simp add: strip_with_def)
  then have "dropWhile ws s = []"
    by (metis hd_dropWhile hd_in_set)
  then show "\<forall>c\<in>set s. ws c" by simp
next
  assume "\<forall>c\<in>set s. ws c"
  then show "strip_with ws s = []"
    by (auto simp: strip_with_def dest: set_dropWhileD)
qed

lemma strip_with_decompose:
  "\<exists>l r. s = l @ strip_with ws s @ r \<and> list_all ws l \<and> list_all ws r \<and>
         (strip_with ws s \<noteq> [] \<longrightarrow> \<not> ws (hd (strip_with ws s)) \<and> \<not> ws (last (strip_with ws s)))"
proof -
  define t where "t = dropWhile ws s"
  define u where "u = dropWhile ws (rev t)"
  have st: "strip_with ws s = rev u" by (simp add: strip_with_def t_def u_def)
  have 1: "s = takeWhile ws s @ t" by (simp add: t_def)
  have "rev t = takeWhile ws (rev t) @ u" by (simp add: u_def)
  then have "rev (rev t) = rev (takeWhile ws (rev t) @ u)" by simp
  then have 2: "t = rev u @ rev (takeWhile ws (rev t))" by simp
  have l: "list_all ws (takeWhile ws s)"
    by (auto simp: list_all_iff dest: set_takeWhileD)
  have r: "list_all ws (rev (takeWhile ws (rev t)))"
    by (auto simp: list_all_iff dest: set_takeWhileD)
  have e: "rev u \<noteq> [] \<longrightarrow> \<not> ws (hd (rev u)) \<and> \<not> ws (last (rev u))"
  proof
    assume ne: "rev u \<noteq> []"
    then have "u \<noteq> []" by simp
    then have "\<not> ws (hd u)" unfolding u_def using hd_dropWhile by blast
    then have la: "\<not> ws (last (rev u))" using \<open>u \<noteq> []\<close> by (simp add: last_rev)
    from ne 2 have "t \<noteq> []" by auto
    then have "\<not> ws (hd t)" unfolding t_def using hd_dropWhile by blast
    moreover have "hd t = hd (rev u)" using 2 ne by (metis hd_append2)
    ultimately show "\<not> ws (hd (rev u)) \<and> \<not> ws (last (rev u))" using la by simp
  qed
  from 1 2 have "s = takeWhile ws s @ rev u @ rev (takeWhile ws (rev t))" by simp
  with l r e show ?thesis unfolding st by blast
qed

lemma parse_element_None: "parse_element nd x = Inr None \<longleftrightarrow> strip x = []"
  by (auto simp: parse_element_def Let_def split: sum.splits py_error.splits)

lemma parse_element_nonempty:
  "strip x \<noteq> [] \<Longrightarrow>
   parse_element nd x =
     (case py_int nd (strip x) of
        Inr n \<Rightarrow> Inr (Some (IntE n))
      | Inl e \<Rightarrow> Inr (Some (StrE (strip x))))"
  by (auto simp: parse_element_def Let_def split: sum.splits py_error.splits dest: py_int_error)

lemma int_digits_ascii:
  "list_all ascii_digit ds \<Longrightarrow> ds \<noteq> [] \<or> (prev \<noteq> None \<and> prev \<noteq> Some underscore) \<Longrightarrow>
   int_digits nd prev acc ds = Inr (foldl (\<lambda>acc d. 10 * acc + (d - 48)) acc ds)"
proof (induction ds arbitrary: prev acc)
  case Nil
  then show ?case by auto
next
  case (Cons d ds)
  from Cons.prems have ad: "ascii_digit d" and ds: "list_all ascii_digit ds"
    by simp_all
  from ad have d: "48 \<le> d" "d \<le> 57" by (simp_all add: ascii_digit_def)
  from d have nu: "d \<noteq> underscore" by (simp add: underscore_def)
  from d have td: "todecimal nd d = Some (d - 48)" by (simp add: todecimal_def)
  have "int_digits nd (Some d) (10 * acc + (d - 48)) ds =
        Inr (foldl (\<lambda>acc d. 10 * acc + (d - 48)) (10 * acc + (d - 48)) ds)"
    using Cons.IH [OF ds, of "Some d"] nu by simp
  then show ?case using nu td by simp
qed

lemma ascii_digit_not_space: "ascii_digit c \<Longrightarrow> \<not> int_space c"
  by (auto simp: ascii_digit_def int_space_def isspace_def)

lemma ascii_digit_decimal: "ascii_digit c \<Longrightarrow> isdecimal nd c"
  by (simp add: ascii_digit_def isdecimal_def todecimal_def)

lemma ascii_digits_decimal: "list_all ascii_digit ds \<Longrightarrow> list_all (isdecimal nd) ds"
  by (induction ds) (simp_all add: ascii_digit_decimal)

lemma int_value_ascii:
  assumes "list_all ascii_digit ds" and "ds \<noteq> []"
  shows "int_value nd ds =
           (if int_max_str_digits < length ds then Inl ValueError else Inr (decimal_value ds))"
proof -
  have "int_digits nd None 0 ds = Inr (decimal_value ds)"
    using int_digits_ascii [OF assms(1), of None nd 0] assms(2) by (simp add: decimal_value_def)
  moreover have "filter (\<lambda>c. c \<noteq> underscore) ds = ds"
    using ascii_digits_decimal [OF assms(1)] by (rule digits_no_underscore)
  ultimately show ?thesis by (simp add: int_value_def)
qed

lemma py_int_spec_integer:
  assumes "spec_integer t = Some n"
  shows "py_int nd t =
           (if int_max_str_digits < length (digits_of t) then Inl ValueError else Inr n)"
proof -
  from assms obtain c cs where t: "t = c # cs"
    by (cases t) (auto simp: spec_integer_def)
  show ?thesis
  proof (cases "c = minus_sign \<or> c = plus_sign")
    case True
    with assms t have cs: "cs \<noteq> []" "list_all ascii_digit cs"
      by (auto simp: spec_integer_def split: if_splits)
    then have "ascii_digit (last cs)" by (simp add: list_all_iff)
    then have "\<not> int_space (last t)" using cs t by (simp add: ascii_digit_not_space)
    moreover have "\<not> int_space (hd t)" using True t
      by (auto simp: int_space_def isspace_def minus_sign_def plus_sign_def)
    ultimately have st: "strip_with int_space t = c # cs" using t strip_with_id by fastforce
    from True t have dg: "digits_of t = cs" by (simp add: digits_of_def)
    from True have pm: "plus_sign \<noteq> minus_sign" by (simp add: plus_sign_def minus_sign_def)
    show ?thesis
      unfolding dg using st True assms t cs pm int_value_ascii [OF cs(2) cs(1), of nd]
      by (auto simp: py_int_def spec_integer_def)
  next
    case False
    with assms t have ds: "list_all ascii_digit t"
      by (auto simp: spec_integer_def split: if_splits)
    then have "ascii_digit (hd t)" "ascii_digit (last t)" using t by (simp_all add: list_all_iff)
    then have st: "strip_with int_space t = c # cs" using t strip_with_id ascii_digit_not_space
      by (metis list.distinct(1))
    from False t have dg: "digits_of t = t" by (simp add: digits_of_def)
    have tn: "t \<noteq> []" using t by simp
    show ?thesis
      unfolding dg using st False assms t ds int_value_ascii [OF ds tn, of nd]
      by (auto simp: py_int_def spec_integer_def)
  qed
qed

lemma decimal_value_zeros:
  "foldl (\<lambda>acc d. 10 * acc + (d - 48)) 0 (replicate n (48::nat)) = (0::nat)"
  by (induction n) simp_all

lemma long_token:
  assumes "int_max_str_digits \<le> n"
  shows "spec_integer (strip (replicate n 48 @ asc ''7'')) = Some 7
         \<and> parse_element nd (replicate n 48 @ asc ''7'') =
             Inr (Some (StrE (replicate n 48 @ asc ''7'')))"
proof -
  let ?t = "replicate n 48 @ asc ''7''"
  have sp: "\<not> isspace 48" "\<not> isspace 55" by (simp_all add: isspace_def)
  have hd: "hd ?t = 48 \<or> hd ?t = 55" by (cases n) (simp_all add: chars)
  have "strip_with isspace ?t = ?t"
  proof (rule strip_with_id)
    show "?t \<noteq> []" by (simp add: chars)
    show "\<not> isspace (hd ?t)" using hd sp by auto
    show "\<not> isspace (last ?t)" using sp by (simp add: chars)
  qed
  then have st: "strip ?t = ?t" by (simp add: strip_def)
  have da: "list_all ascii_digit ?t"
    by (simp add: list_all_iff ascii_digit_def chars)
  have ns: "hd ?t \<noteq> minus_sign" "hd ?t \<noteq> plus_sign"
    using hd by (auto simp: minus_sign_def plus_sign_def)
  obtain c cs where c: "?t = c # cs" by (cases ?t) (simp_all add: chars)
  with ns have cn: "c \<noteq> minus_sign" "c \<noteq> plus_sign" by simp_all
  have dv: "decimal_value ?t = 7"
    by (simp add: decimal_value_def decimal_value_zeros chars)
  have si: "spec_integer ?t = Some 7"
    using da dv cn unfolding spec_integer_def c by simp
  from cn have dg: "digits_of ?t = ?t" unfolding digits_of_def c by simp
  have "int_max_str_digits < length (digits_of ?t)"
    unfolding dg using assms by (simp add: chars)
  with py_int_spec_integer [OF si, of nd] have pi: "py_int nd ?t = Inl ValueError" by simp
  have "strip ?t \<noteq> []" unfolding st by (simp add: chars)
  from parse_element_nonempty [OF this, of nd] have "parse_element nd ?t = Inr (Some (StrE ?t))"
    unfolding st using pi by simp
  with si st show ?thesis by simp
qed

text \<open>
  C3, as stated: every optionally signed run of digits would be returned as the integer
  a conforming parser reads. The token made of 4300 zeros and a 7 is such a run, with the
  value 7; \<open>int\<close> refuses its 4301 digits with \<open>ValueError\<close>, and \<open>parse_element\<close>
  returns the token as a string.
\<close>

theorem parse_element_limit_counterexample:
  "spec_integer (strip (replicate 4300 48 @ asc ''7'')) = Some 7
   \<and> parse_element no_other_digits (replicate 4300 48 @ asc ''7'') =
       Inr (Some (StrE (replicate 4300 48 @ asc ''7'')))"
  by (rule long_token) (simp add: int_max_str_digits_def)

text \<open>
  C3, amended. \<open>parse_element\<close> returns on every string and never raises. It strips the
  whitespace around the token (the stripped string is the input without a run of
  whitespace at each end, and neither begins nor ends with whitespace). The result is
  \<open>None\<close> exactly when the stripped string is empty, which is when the input holds
  whitespace only. Otherwise the result is the integer when \<open>int\<close> accepts the stripped
  string, and the stripped string itself when it does not. On an optionally signed run
  of at most 4300 digits \<open>int\<close> gives the value a conforming parser reads; a longer run
  is returned as a string.
\<close>

theorem parse_element_spec:
  "(\<exists>v. parse_element nd x = Inr v)
   \<and> (\<exists>l r. x = l @ strip x @ r \<and> list_all isspace l \<and> list_all isspace r \<and>
         (strip x \<noteq> [] \<longrightarrow> \<not> isspace (hd (strip x)) \<and> \<not> isspace (last (strip x))))
   \<and> (parse_element nd x = Inr None \<longleftrightarrow> strip x = [])
   \<and> (strip x = [] \<longleftrightarrow> (\<forall>c\<in>set x. isspace c))
   \<and> (strip x \<noteq> [] \<longrightarrow>
        parse_element nd x =
          (case py_int nd (strip x) of
             Inr n \<Rightarrow> Inr (Some (IntE n))
           | Inl e \<Rightarrow> Inr (Some (StrE (strip x)))))
   \<and> (\<forall>n. spec_integer (strip x) = Some n \<longrightarrow>
         (if length (digits_of (strip x)) \<le> 4300
          then py_int nd (strip x) = Inr n \<and> parse_element nd x = Inr (Some (IntE n))
          else py_int nd (strip x) = Inl ValueError \<and>
               parse_element nd x = Inr (Some (StrE (strip x)))))"
proof -
  have 1: "\<exists>v. parse_element nd x = Inr v" by (rule parse_element_total)
  have 2: "\<exists>l r. x = l @ strip x @ r \<and> list_all isspace l \<and> list_all isspace r \<and>
         (strip x \<noteq> [] \<longrightarrow> \<not> isspace (hd (strip x)) \<and> \<not> isspace (last (strip x)))"
    unfolding strip_def by (rule strip_with_decompose)
  have 3: "parse_element nd x = Inr None \<longleftrightarrow> strip x = []" by (rule parse_element_None)
  have 4: "strip x = [] \<longleftrightarrow> (\<forall>c\<in>set x. isspace c)"
    unfolding strip_def by (rule strip_with_empty)
  have 5: "strip x \<noteq> [] \<longrightarrow>
        parse_element nd x =
          (case py_int nd (strip x) of
             Inr n \<Rightarrow> Inr (Some (IntE n))
           | Inl e \<Rightarrow> Inr (Some (StrE (strip x))))"
    using parse_element_nonempty by blast
  have 6: "\<forall>n. spec_integer (strip x) = Some n \<longrightarrow>
         (if length (digits_of (strip x)) \<le> int_max_str_digits
          then py_int nd (strip x) = Inr n \<and> parse_element nd x = Inr (Some (IntE n))
          else py_int nd (strip x) = Inl ValueError \<and>
               parse_element nd x = Inr (Some (StrE (strip x))))"
  proof (intro allI impI)
    fix n assume s: "spec_integer (strip x) = Some n"
    then have ne: "strip x \<noteq> []" by (auto simp: spec_integer_def)
    from py_int_spec_integer [OF s, of nd] parse_element_nonempty [OF ne, of nd]
    show "if length (digits_of (strip x)) \<le> int_max_str_digits
          then py_int nd (strip x) = Inr n \<and> parse_element nd x = Inr (Some (IntE n))
          else py_int nd (strip x) = Inl ValueError \<and>
               parse_element nd x = Inr (Some (StrE (strip x)))"
      by (cases "length (digits_of (strip x)) \<le> int_max_str_digits") simp_all
  qed
  show ?thesis
    by (rule conjI 1 2 3 4 5 6 [unfolded int_max_str_digits_def])+
qed

lemmas eval_spec = spec_integer_def ascii_digit_def decimal_value_def digits_of_def

theorem parse_element_spec_witness:
  "spec_integer (strip (asc '' -042 '')) = Some (- 42)
   \<and> length (digits_of (strip (asc '' -042 ''))) \<le> 4300
   \<and> parse_element no_other_digits (asc '' -042 '') = Inr (Some (IntE (- 42)))
   \<and> strip (asc '' 4 2 '') \<noteq> []
   \<and> parse_element no_other_digits (asc '' 4 2 '') = Inr (Some (StrE (asc ''4 2'')))
   \<and> list_all isspace (asc ''  '')
   \<and> parse_element no_other_digits (asc ''  '') = Inr None"
proof -
  have a: "spec_integer (strip (asc '' -042 '')) = Some (- 42)"
    by (simp add: eval_spec eval_defs chars)
  have l: "length (digits_of (strip (asc '' -042 ''))) \<le> 4300"
    by (simp add: eval_spec eval_defs chars)
  have b: "strip (asc '' 4 2 '') = asc ''4 2''"
    by (simp add: eval_defs chars)
  have c: "py_int no_other_digits (asc ''4 2'') = Inl ValueError"
    by (simp add: eval_defs no_other_digits_def chars)
  have d: "list_all isspace (asc ''  '')"
    by (simp add: isspace_def chars)
  then have d': "\<forall>c\<in>set (asc ''  ''). isspace c"
    by (simp add: list_all_iff)
  have e: "strip (asc ''  '') = []"
    using d' by (simp add: strip_def strip_with_empty)
  have 1: "parse_element no_other_digits (asc '' -042 '') = Inr (Some (IntE (- 42)))"
    using parse_element_spec [of no_other_digits "asc '' -042 ''"] a l by simp
  have 2: "parse_element no_other_digits (asc '' 4 2 '') = Inr (Some (StrE (asc ''4 2'')))"
    using parse_element_spec [of no_other_digits "asc '' 4 2 ''"] b c by (simp add: chars)
  have 3: "parse_element no_other_digits (asc ''  '') = Inr None"
    using parse_element_spec [of no_other_digits "asc ''  ''"] e by simp
  have bn: "strip (asc '' 4 2 '') \<noteq> []" unfolding b by (simp add: chars)
  show ?thesis
    by (rule conjI a l 1 bn 2 d 3)+
qed

section \<open>The set parser\<close>

lemma parse_set_loop_eq:
  "parse_set_loop nd parts acc =
     Inr (acc \<union> {el. \<exists>part\<in>set parts. parse_element nd part = Inr (Some el)})"
proof (induction parts arbitrary: acc)
  case Nil
  then show ?case by simp
next
  case (Cons part parts)
  obtain v where v: "parse_element nd part = Inr v" using parse_element_total by blast
  show ?case
  proof (cases v)
    case None
    with v Cons show ?thesis by auto
  next
    case (Some el)
    with v Cons show ?thesis by auto
  qed
qed

lemma parse_set_eq:
  "parse_set nd s =
     Inr {el. \<exists>part\<in>set (split_comma s). parse_element nd part = Inr (Some el)}"
  by (simp add: parse_set_def parse_set_loop_eq)

lemma split_from_nonempty: "split_from cur s \<noteq> []"
  by (induction cur s rule: split_from.induct) auto

lemma join_split_from: "join [comma] (split_from cur s) = rev cur @ s"
proof (induction cur s rule: split_from.induct)
  case (1 cur)
  then show ?case by simp
next
  case (2 cur c cs)
  show ?case
  proof (cases "c = comma")
    case True
    obtain p ps where "split_from [] cs = p # ps"
      using split_from_nonempty [of "[]" cs] by (cases "split_from [] cs") auto
    with True 2 show ?thesis by auto
  next
    case False
    with 2 show ?thesis by simp
  qed
qed

lemma split_from_no_comma:
  "comma \<notin> set cur \<Longrightarrow> \<forall>part\<in>set (split_from cur s). comma \<notin> set part"
  by (induction cur s rule: split_from.induct) auto

lemma length_split_from: "length (split_from cur s) = Suc (count_list s comma)"
  by (induction cur s rule: split_from.induct) auto

lemma split_from_chars:
  "\<Union> (set ` set (split_from cur s)) = set cur \<union> (set s - {comma})"
  by (induction cur s rule: split_from.induct) auto

lemma parsed_finite:
  "finite {el. \<exists>part\<in>set parts. parse_element nd part = Inr (Some el)} \<and>
   card {el. \<exists>part\<in>set parts. parse_element nd part = Inr (Some el)} \<le> length parts"
proof -
  let ?S = "{el. \<exists>part\<in>set parts. parse_element nd part = Inr (Some el)}"
  let ?f = "\<lambda>part. case parse_element nd part of Inr (Some el) \<Rightarrow> el | _ \<Rightarrow> IntE 0"
  have sub: "?S \<subseteq> ?f ` set parts" by force
  then have fin: "finite ?S" by (rule finite_subset) simp
  have "card ?S \<le> card (?f ` set parts)" using sub by (intro card_mono) simp_all
  also have "\<dots> \<le> card (set parts)" by (rule card_image_le) simp
  also have "\<dots> \<le> length parts" by (rule card_length)
  finally show ?thesis using fin by simp
qed

lemma parse_set_empty_iff:
  "parse_set nd s = Inr {} \<longleftrightarrow> (\<forall>c\<in>set s. c = comma \<or> isspace c)"
proof -
  have "parse_set nd s = Inr {} \<longleftrightarrow>
        (\<forall>part\<in>set (split_comma s). \<forall>el. parse_element nd part \<noteq> Inr (Some el))"
    unfolding parse_set_eq by auto
  also have "\<dots> \<longleftrightarrow> (\<forall>part\<in>set (split_comma s). parse_element nd part = Inr None)"
    using parse_element_total by (metis not_Some_eq sum.inject(2))
  also have "\<dots> \<longleftrightarrow> (\<forall>part\<in>set (split_comma s). \<forall>c\<in>set part. isspace c)"
    by (simp add: parse_element_None strip_def strip_with_empty)
  also have "\<dots> \<longleftrightarrow> (\<forall>c\<in>\<Union> (set ` set (split_comma s)). isspace c)"
    by blast
  also have "\<dots> \<longleftrightarrow> (\<forall>c\<in>set s. c = comma \<or> isspace c)"
    unfolding split_comma_def split_from_chars by auto
  finally show ?thesis .
qed

lemma parse_set_1_1_2: "parse_set nd (asc ''1,1,2'') = Inr {IntE 1, IntE 2}"
  by (simp add: eval_defs chars insert_commute)

text \<open>
  C4. \<open>parse_set\<close> splits the text at the commas (joining the tokens with commas gives
  the text back, no token holds a comma, and there is one token more than commas),
  parses each token with \<open>parse_element\<close> and collects the results that are not
  \<open>None\<close>. The result is a finite set with at most as many elements as tokens, so equal
  tokens give one element; it depends only on which tokens occur, not on their order or
  number. "1,1,2" gives the set of 1 and 2.
\<close>

theorem parse_set_spec:
  "parse_set nd s =
     Inr {el. \<exists>part\<in>set (split_comma s). parse_element nd part = Inr (Some el)}
   \<and> join [comma] (split_comma s) = s
   \<and> (\<forall>part\<in>set (split_comma s). comma \<notin> set part)
   \<and> length (split_comma s) = Suc (count_list s comma)
   \<and> (\<exists>r. parse_set nd s = Inr r \<and> finite r \<and> card r \<le> length (split_comma s))
   \<and> (set parts = set parts' \<longrightarrow> parse_set_loop nd parts {} = parse_set_loop nd parts' {})
   \<and> parse_set nd (asc ''1,1,2'') = Inr {IntE 1, IntE 2}"
proof -
  have 1: "parse_set nd s =
     Inr {el. \<exists>part\<in>set (split_comma s). parse_element nd part = Inr (Some el)}"
    by (rule parse_set_eq)
  have 2: "join [comma] (split_comma s) = s"
    using join_split_from [of "[]" s] by (simp add: split_comma_def)
  have 3: "\<forall>part\<in>set (split_comma s). comma \<notin> set part"
    using split_from_no_comma [of "[]" s] by (simp add: split_comma_def)
  have 4: "length (split_comma s) = Suc (count_list s comma)"
    by (simp add: split_comma_def length_split_from)
  have 5: "\<exists>r. parse_set nd s = Inr r \<and> finite r \<and> card r \<le> length (split_comma s)"
    using 1 parsed_finite [of "split_comma s" nd] by simp
  have 6: "set parts = set parts' \<longrightarrow> parse_set_loop nd parts {} = parse_set_loop nd parts' {}"
    by (simp add: parse_set_loop_eq)
  from 1 2 3 4 5 6 parse_set_1_1_2 show ?thesis by blast
qed

theorem parse_set_spec_witness:
  "set [asc ''1'', asc '' 1'', asc ''b''] = set [asc ''b'', asc ''1'', asc '' 1'', asc ''b'']
   \<and> parse_set_loop (\<lambda>c. None) [asc ''1'', asc '' 1'', asc ''b''] {} =
       parse_set_loop (\<lambda>c. None) [asc ''b'', asc ''1'', asc '' 1'', asc ''b''] {}
   \<and> split_comma (asc ''1, 1,b'') = [asc ''1'', asc '' 1'', asc ''b'']
   \<and> parse_set (\<lambda>c. None) (asc ''1, 1,b'') = Inr {IntE 1, StrE (asc ''b'')}"
proof -
  have a: "set [asc ''1'', asc '' 1'', asc ''b''] = set [asc ''b'', asc ''1'', asc '' 1'', asc ''b'']"
    by auto
  have b: "split_comma (asc ''1, 1,b'') = [asc ''1'', asc '' 1'', asc ''b'']"
    by (simp add: split_comma_def chars)
  have c: "parse_element (\<lambda>c. None) (asc ''1'') = Inr (Some (IntE 1))"
    "parse_element (\<lambda>c. None) (asc '' 1'') = Inr (Some (IntE 1))"
    "parse_element (\<lambda>c. None) (asc ''b'') = Inr (Some (StrE (asc ''b'')))"
    by (simp_all add: eval_defs chars)
  from parse_set_spec [of "\<lambda>c. None" "asc ''1, 1,b''" "[asc ''1'', asc '' 1'', asc ''b'']"
      "[asc ''b'', asc ''1'', asc '' 1'', asc ''b'']"]
  have "parse_set (\<lambda>c. None) (asc ''1, 1,b'') =
          Inr {el. \<exists>part\<in>set (split_comma (asc ''1, 1,b'')).
                 parse_element (\<lambda>c. None) part = Inr (Some el)}"
    and d: "parse_set_loop (\<lambda>c. None) [asc ''1'', asc '' 1'', asc ''b''] {} =
       parse_set_loop (\<lambda>c. None) [asc ''b'', asc ''1'', asc '' 1'', asc ''b''] {}"
    using a by blast+
  then have "parse_set (\<lambda>c. None) (asc ''1, 1,b'') = Inr {IntE 1, StrE (asc ''b'')}"
    unfolding b using c by auto
  with a b d show ?thesis by blast
qed

text \<open>
  C10. \<open>parse_set\<close> gives the empty set exactly on the strings made of commas and
  whitespace only: each of their tokens holds whitespace only and parses to \<open>None\<close>,
  which is dropped. The empty string, a single space and ",,, " are such strings.
\<close>

theorem parse_set_blank:
  "(parse_set nd s = Inr {} \<longleftrightarrow> (\<forall>c\<in>set s. c = comma \<or> isspace c))
   \<and> (\<forall>part\<in>set (split_comma s). (\<forall>c\<in>set part. isspace c) \<longrightarrow> parse_element nd part = Inr None)
   \<and> parse_set nd (asc '''') = Inr {}
   \<and> parse_set nd (asc '' '') = Inr {}
   \<and> parse_set nd (asc '',,, '') = Inr {}"
proof -
  have 1: "parse_set nd s = Inr {} \<longleftrightarrow> (\<forall>c\<in>set s. c = comma \<or> isspace c)"
    by (rule parse_set_empty_iff)
  have 2: "\<forall>part\<in>set (split_comma s). (\<forall>c\<in>set part. isspace c) \<longrightarrow> parse_element nd part = Inr None"
    by (simp add: parse_element_None strip_def strip_with_empty)
  have 3: "parse_set nd (asc '''') = Inr {}"
    unfolding parse_set_empty_iff by (simp add: chars)
  have 4: "parse_set nd (asc '' '') = Inr {}"
    unfolding parse_set_empty_iff by (simp add: chars isspace_def)
  have 5: "parse_set nd (asc '',,, '') = Inr {}"
    unfolding parse_set_empty_iff by (simp add: chars isspace_def)
  from 1 2 3 4 5 show ?thesis by blast
qed

theorem parse_set_blank_witness:
  "list_all (\<lambda>c. c = comma \<or> isspace c) (asc '' , ,'')
   \<and> parse_set (\<lambda>c. None) (asc '' , ,'') = Inr {}
   \<and> \<not> list_all (\<lambda>c. c = comma \<or> isspace c) (asc '' , 0,'')
   \<and> parse_set (\<lambda>c. None) (asc '' , 0,'') \<noteq> Inr {}"
proof -
  have a: "list_all (\<lambda>c. c = comma \<or> isspace c) (asc '' , ,'')"
    by (simp add: chars isspace_def)
  have b: "\<not> list_all (\<lambda>c. c = comma \<or> isspace c) (asc '' , 0,'')"
    by (simp add: chars isspace_def)
  from parse_set_blank [of "\<lambda>c. None" "asc '' , ,''"] parse_set_blank [of "\<lambda>c. None" "asc '' , 0,''"]
  show ?thesis using a b unfolding list_all_iff by blast
qed

section \<open>Formatting a set\<close>

subsection \<open>When \<open>sorted\<close> succeeds\<close>

lemma all_int_map: "\<forall>e\<in>set xs. is_int e \<Longrightarrow> \<exists>js. xs = map IntE js"
proof (induction xs)
  case Nil
  then show ?case by simp
next
  case (Cons x xs)
  then obtain js where js: "xs = map IntE js" by auto
  from Cons.prems obtain j where j: "x = IntE j" by (cases x) auto
  have "x # xs = map IntE (j # js)" using j js by simp
  then show ?case by (rule exI)
qed

lemma all_str_map: "\<forall>e\<in>set xs. \<not> is_int e \<Longrightarrow> \<exists>js. xs = map StrE js"
proof (induction xs)
  case Nil
  then show ?case by simp
next
  case (Cons x xs)
  then obtain js where js: "xs = map StrE js" by auto
  from Cons.prems obtain j where j: "x = StrE j" by (cases x) auto
  have "x # xs = map StrE (j # js)" using j js by simp
  then show ?case by (rule exI)
qed

lemma distinct_map_IntE: "distinct (map IntE js) = distinct js"
  by (simp add: distinct_map inj_on_def)

lemma distinct_map_StrE: "distinct (map StrE js) = distinct js"
  by (simp add: distinct_map inj_on_def)



lemma insort_py_same_type:
  "insort_py x (y # ys) = Inr zs \<Longrightarrow> is_int x = is_int y"
  by (cases x; cases y) (auto split: sum.splits bool.splits)

lemma sorted_py_homogeneous:
  "sorted_py xs = Inr ys \<Longrightarrow> a \<in> set xs \<Longrightarrow> b \<in> set xs \<Longrightarrow> is_int a = is_int b"
proof (induction xs arbitrary: ys a b)
  case Nil
  then show ?case by simp
next
  case (Cons x xs)
  from Cons.prems(1) obtain ws where ws: "sorted_py xs = Inr ws" and ins: "insort_py x ws = Inr ys"
    by (cases "sorted_py xs") auto
  have tail: "is_int u = is_int v" if "u \<in> set xs" "v \<in> set xs" for u v
    using Cons.IH [OF ws that] .
  have head: "is_int x = is_int u" if u: "u \<in> set xs" for u
  proof -
    from u have "ws \<noteq> []" using sorted_py_set [OF ws] by auto
    then obtain w ws' where w: "ws = w # ws'" by (cases ws) auto
    then have wx: "w \<in> set xs" using sorted_py_set [OF ws] by auto
    have "is_int x = is_int w" using ins w insort_py_same_type by blast
    with tail [OF wx u] show ?thesis by simp
  qed
  from Cons.prems(2) have a: "a = x \<or> a \<in> set xs" by simp
  from Cons.prems(3) have b: "b = x \<or> b \<in> set xs" by simp
  from a b show ?case using head tail by metis
qed


lemma homogeneous_cases:
  assumes "\<forall>a\<in>set xs. \<forall>b\<in>set xs. is_int a = is_int b"
  shows "(\<exists>js. xs = map IntE js) \<or> (\<exists>js. xs = map StrE js)"
proof (cases xs)
  case Nil
  then show ?thesis by simp
next
  case (Cons x xs')
  then have x: "x \<in> set xs" by simp
  show ?thesis
  proof (cases "is_int x")
    case True
    have "\<forall>e\<in>set xs. is_int e"
    proof
      fix e assume "e \<in> set xs"
      with assms x have "is_int e = is_int x" by blast
      with True show "is_int e" by simp
    qed
    then show ?thesis using all_int_map by blast
  next
    case False
    have "\<forall>e\<in>set xs. \<not> is_int e"
    proof
      fix e assume "e \<in> set xs"
      with assms x have "is_int e = is_int x" by blast
      with False show "\<not> is_int e" by simp
    qed
    then show ?thesis using all_str_map by blast
  qed
qed

lemma py_lt_IntE: "(py_lt (IntE a) (IntE b) = Inr True) = (a < b)"
  by simp

lemma py_lt_StrE: "(py_lt (StrE a) (StrE b) = Inr True) = (a < b)"
  by simp

lemma sorted_py_natural:
  assumes h: "\<forall>a\<in>set xs. \<forall>b\<in>set xs. is_int a = is_int b" and d: "distinct xs"
  shows "\<exists>ys. sorted_py xs = Inr ys \<and> sorted_wrt (\<lambda>a b. py_lt a b = Inr True) ys"
proof -
  from homogeneous_cases [OF h] show ?thesis
  proof
    assume "\<exists>js. xs = map IntE js"
    then obtain js where js: "xs = map IntE js" by blast
    with d have "distinct js" by (simp add: distinct_map_IntE)
    then have "sorted_wrt (<) (sort js)" by (simp add: strict_sorted_iff)
    then have "sorted_wrt (\<lambda>a b. py_lt a b = Inr True) (map IntE (sort js))"
      unfolding sorted_wrt_map py_lt_IntE .
    with js show ?thesis by (simp add: sorted_py_int)
  next
    assume "\<exists>js. xs = map StrE js"
    then obtain js where js: "xs = map StrE js" by blast
    with d have "distinct js" by (simp add: distinct_map_StrE)
    then have "sorted_wrt (<) (sort js)" by (simp add: strict_sorted_iff)
    then have "sorted_wrt (\<lambda>a b. py_lt a b = Inr True) (map StrE (sort js))"
      unfolding sorted_wrt_map py_lt_StrE .
    with js show ?thesis by (simp add: sorted_py_str)
  qed
qed

lemma sort_result_natural:
  assumes "\<forall>a\<in>set (iter s). \<forall>b\<in>set (iter s). is_int a = is_int b" and "distinct (iter s)"
    and "sort_result iter s = Inr elems"
  shows "sorted_wrt (\<lambda>a b. py_lt a b = Inr True) elems"
proof -
  from sorted_py_natural [OF assms(1,2)] obtain ys where
    "sorted_py (iter s) = Inr ys" "sorted_wrt (\<lambda>a b. py_lt a b = Inr True) ys" by blast
  with assms(3) show ?thesis by (simp add: sort_result_def)
qed

lemma sort_result_mixed:
  assumes "\<not> (\<forall>a\<in>set (iter s). \<forall>b\<in>set (iter s). is_int a = is_int b)"
  shows "sort_result iter s = Inr (sort_key py_str (iter s))"
proof (cases "sorted_py (iter s)")
  case (Inl e)
  then have "e = TypeError" by (rule sorted_py_error)
  with Inl show ?thesis by (simp add: sort_result_def)
next
  case (Inr ys)
  from assms obtain a b where "a \<in> set (iter s)" "b \<in> set (iter s)" "is_int a \<noteq> is_int b"
    by blast
  with sorted_py_homogeneous [OF Inr] show ?thesis by blast
qed

subsection \<open>The two examples, whatever the iteration order\<close>

lemmas eval_str = str_int_def str_nat.simps

lemma format_example_ints:
  assumes "iteration_order iter {IntE 3, IntE 1, IntE 2}"
  shows "format_set iter {IntE 3, IntE 1, IntE 2} = Inr (asc ''{1, 2, 3}'')"
proof -
  let ?s = "{IntE 3, IntE 1, IntE 2}"
  from assms have st: "set (iter ?s) = ?s" and d: "distinct (iter ?s)"
    by (simp_all add: iteration_order_def)
  from st have "\<forall>e\<in>set (iter ?s). is_int e" by auto
  then obtain js where js: "iter ?s = map IntE js" using all_int_map by blast
  from d js have dj: "distinct js" by (simp add: distinct_map_IntE)
  have "IntE ` set js = IntE ` {3, 1, 2}" using st js by simp
  moreover have "inj IntE" by (simp add: inj_on_def)
  ultimately have sj: "set js = {3, 1, 2}" by (simp only: inj_image_eq_iff)
  have "sort js = [1, 2, 3]"
  proof (rule sorted_distinct_set_unique)
    show "set (sort js) = set [1, 2, 3]" using sj by auto
  qed (simp_all add: dj)
  then have "sorted_py (iter ?s) = Inr [IntE 1, IntE 2, IntE 3]"
    using js by (simp add: sorted_py_int)
  then have "sort_result iter ?s = Inr [IntE 1, IntE 2, IntE 3]"
    by (simp add: sort_result_def)
  then show ?thesis
    by (simp add: format_set_def eval_str chars)
qed

lemma format_example_mixed:
  assumes "iteration_order iter {IntE 1, StrE (asc ''b''), IntE 2}"
  shows "format_set iter {IntE 1, StrE (asc ''b''), IntE 2} = Inr (asc ''{1, 2, b}'')"
proof -
  let ?s = "{IntE 1, StrE (asc ''b''), IntE 2}"
  let ?ks = "map py_str (sort_key py_str (iter ?s))"
  from assms have st: "set (iter ?s) = ?s" and d: "distinct (iter ?s)"
    by (simp_all add: iteration_order_def)
  have "IntE 1 \<in> set (iter ?s)" "StrE (asc ''b'') \<in> set (iter ?s)" using st by simp_all
  then have "\<not> (\<forall>a\<in>set (iter ?s). \<forall>b\<in>set (iter ?s). is_int a = is_int b)"
    by (metis is_int.simps)
  then have sr: "sort_result iter ?s = Inr (sort_key py_str (iter ?s))"
    by (rule sort_result_mixed)
  have inj: "inj_on py_str ?s"
    by (simp add: eval_str chars)
  have "?ks = [asc ''1'', asc ''2'', asc ''b'']"
  proof (rule sorted_distinct_set_unique)
    show "sorted ?ks" by simp
    show "distinct ?ks" using d inj st by (simp add: distinct_map)
    show "set ?ks = set [asc ''1'', asc ''2'', asc ''b'']"
      using st by (auto simp: eval_str chars)
    show "sorted [asc ''1'', asc ''2'', asc ''b'']" by (simp add: chars)
    show "distinct [asc ''1'', asc ''2'', asc ''b'']" by (simp add: chars)
  qed
  then show ?thesis
    using sr by (simp add: format_set_def chars)
qed

subsection \<open>The text does not depend on the iteration order\<close>

lemma sort_same:
  fixes js js' :: "'a::linorder list"
  assumes "set js = set js'" "distinct js" "distinct js'"
  shows "sort js = sort js'"
proof (rule sorted_distinct_set_unique)
  show "sorted (sort js)" by simp
  show "distinct (sort js)" using assms(2) by simp
  show "sorted (sort js')" by simp
  show "distinct (sort js')" using assms(3) by simp
  show "set (sort js) = set (sort js')" using assms(1) by simp
qed

lemma set_map_IntE: "set (map IntE js) = set (map IntE js') \<Longrightarrow> set js = set js'"
proof -
  assume "set (map IntE js) = set (map IntE js')"
  then have "IntE ` set js = IntE ` set js'" by (simp only: set_map)
  moreover have "inj IntE" by (rule injI) simp
  ultimately show ?thesis by (simp only: inj_image_eq_iff)
qed

lemma set_map_StrE: "set (map StrE js) = set (map StrE js') \<Longrightarrow> set js = set js'"
proof -
  assume "set (map StrE js) = set (map StrE js')"
  then have "StrE ` set js = StrE ` set js'" by (simp only: set_map)
  moreover have "inj StrE" by (rule injI) simp
  ultimately show ?thesis by (simp only: inj_image_eq_iff)
qed

lemma sorted_py_same:
  assumes h: "\<forall>a\<in>set xs. \<forall>b\<in>set xs. is_int a = is_int b"
    and d: "distinct xs" "distinct xs'" and s: "set xs = set xs'"
  shows "sorted_py xs = sorted_py xs'"
proof -
  from homogeneous_cases [OF h] show ?thesis
  proof
    assume "\<exists>js. xs = map IntE js"
    then obtain js where js: "xs = map IntE js" by blast
    have "\<forall>e\<in>set xs'. is_int e"
    proof
      fix e assume "e \<in> set xs'"
      then have "e \<in> set (map IntE js)" using s js by simp
      then show "is_int e" by auto
    qed
    then obtain js' where js': "xs' = map IntE js'" using all_int_map by blast
    from s have "set js = set js'" unfolding js js' by (rule set_map_IntE)
    moreover have "distinct js" using d(1) unfolding js distinct_map_IntE .
    moreover have "distinct js'" using d(2) unfolding js' distinct_map_IntE .
    ultimately have "sort js = sort js'" by (rule sort_same)
    then show ?thesis unfolding js js' sorted_py_int by simp
  next
    assume "\<exists>js. xs = map StrE js"
    then obtain js where js: "xs = map StrE js" by blast
    have "\<forall>e\<in>set xs'. \<not> is_int e"
    proof
      fix e assume "e \<in> set xs'"
      then have "e \<in> set (map StrE js)" using s js by simp
      then show "\<not> is_int e" by auto
    qed
    then obtain js' where js': "xs' = map StrE js'" using all_str_map by blast
    from s have "set js = set js'" unfolding js js' by (rule set_map_StrE)
    moreover have "distinct js" using d(1) unfolding js distinct_map_StrE .
    moreover have "distinct js'" using d(2) unfolding js' distinct_map_StrE .
    ultimately have "sort js = sort js'" by (rule sort_same)
    then show ?thesis unfolding js js' sorted_py_str by simp
  qed
qed

lemma keys_sorted:
  "map py_str (sort_key py_str xs) = sort (map py_str xs)"
proof -
  have "mset (map py_str (sort_key py_str xs)) = mset (map py_str xs)" by simp
  moreover have "sorted (map py_str (sort_key py_str xs))" by simp
  ultimately show ?thesis by (rule properties_for_sort [symmetric])
qed

lemma keys_same:
  assumes "mset xs = mset xs'"
  shows "sort (map py_str xs) = sort (map py_str xs')"
proof (rule properties_for_sort)
  have "mset (sort (map py_str xs')) = image_mset py_str (mset xs')" by simp
  also have "\<dots> = image_mset py_str (mset xs)" using assms by simp
  also have "\<dots> = mset (map py_str xs)" by simp
  finally show "mset (sort (map py_str xs')) = mset (map py_str xs)" .
  show "sorted (sort (map py_str xs'))" by simp
qed

lemma format_set_deterministic:
  assumes "iteration_order iter s" and "iteration_order iter' s"
  shows "format_set iter s = format_set iter' s"
proof -
  from assms have st: "set (iter s) = s" "set (iter' s) = s"
    and d: "distinct (iter s)" "distinct (iter' s)"
    by (simp_all add: iteration_order_def)
  from st have ss: "set (iter s) = set (iter' s)" by simp
  show ?thesis
  proof (cases "\<forall>a\<in>set (iter s). \<forall>b\<in>set (iter s). is_int a = is_int b")
    case True
    have e: "sorted_py (iter s) = sorted_py (iter' s)"
      using True d ss by (rule sorted_py_same)
    from sorted_py_natural [OF True d(1)] obtain ys where ys: "sorted_py (iter s) = Inr ys"
      by blast
    with e have ys': "sorted_py (iter' s) = Inr ys" by simp
    have "sort_result iter s = Inr ys" using ys by (simp add: sort_result_def)
    moreover have "sort_result iter' s = Inr ys" using ys' by (simp add: sort_result_def)
    ultimately show ?thesis by (simp add: format_set_def)
  next
    case False
    then have F': "\<not> (\<forall>a\<in>set (iter' s). \<forall>b\<in>set (iter' s). is_int a = is_int b)"
      unfolding ss .
    have m: "mset (iter s) = mset (iter' s)"
      using set_eq_iff_mset_eq_distinct [OF d] ss by simp
    have k: "map py_str (sort_key py_str (iter s)) = map py_str (sort_key py_str (iter' s))"
      unfolding keys_sorted by (rule keys_same [OF m])
    have a: "sort_result iter s = Inr (sort_key py_str (iter s))"
      using False by (rule sort_result_mixed)
    have b: "sort_result iter' s = Inr (sort_key py_str (iter' s))"
      using F' by (rule sort_result_mixed)
    show ?thesis unfolding format_set_def a b using k by simp
  qed
qed

text \<open>
  C9. \<open>format_set\<close> never raises. The empty set is rendered as the empty-set sign.
  A set that is not empty is rendered as its elements between braces, separated by a
  comma and a space, in the order \<open>sort_result\<close> gives, which holds the elements of the
  iteration sequence and as many. When the elements compare with each other (all
  integers or all strings) that order is strictly ascending in the elements' own order;
  when integers and strings are mixed, \<open>sorted\<close> raises \<open>TypeError\<close> and the order is
  that of the stable sort on the keys \<open>str\<close>, ascending in the keys. The set of 3, 1 and 2
  is rendered "{1, 2, 3}" and the set of 1, "b" and 2 is rendered "{1, 2, b}", however
  the interpreter iterates over them. Sets, result and regions of the run are those of
  \<open>two_set_result\<close>, which does not format: formatting only yields text. The text is
  the same for every iteration order of the set.
\<close>

theorem format_set_spec:
  "format_set iter {} = Inr [empty_sign]
   \<and> (\<exists>elems. sort_result iter s = Inr elems
        \<and> set elems = set (iter s) \<and> length elems = length (iter s)
        \<and> (s \<noteq> {} \<longrightarrow>
             format_set iter s =
               Inr (asc ''{'' @ join (asc '', '') (map py_str elems) @ asc ''}''))
        \<and> ((\<forall>a\<in>set (iter s). \<forall>b\<in>set (iter s). is_int a = is_int b) \<and> distinct (iter s) \<longrightarrow>
             sorted_wrt (\<lambda>a b. py_lt a b = Inr True) elems)
        \<and> (\<not> (\<forall>a\<in>set (iter s). \<forall>b\<in>set (iter s). is_int a = is_int b) \<longrightarrow>
             elems = sort_key py_str (iter s) \<and> sorted (map py_str elems)))
   \<and> (iteration_order iter {IntE 3, IntE 1, IntE 2} \<longrightarrow>
        format_set iter {IntE 3, IntE 1, IntE 2} = Inr (asc ''{1, 2, 3}''))
   \<and> (iteration_order iter {IntE 1, StrE (asc ''b''), IntE 2} \<longrightarrow>
        format_set iter {IntE 1, StrE (asc ''b''), IntE 2} = Inr (asc ''{1, 2, b}''))
   \<and> (\<exists>w. venn_two iter operation A B U color_A color_B =
          Inr ((two_set_result operation A B U color_A color_B)
                 \<lparr>messages := w @ messages (two_set_result operation A B U color_A color_B)\<rparr>))
   \<and> (iteration_order iter s \<and> iteration_order iter' s \<longrightarrow>
        format_set iter s = format_set iter' s)"
proof -
  have 1: "format_set iter {} = Inr [empty_sign]" by (simp add: format_set_def)
  have 9: "iteration_order iter s \<and> iteration_order iter' s \<longrightarrow>
        format_set iter s = format_set iter' s"
    using format_set_deterministic by blast
  obtain elems where el: "sort_result iter s = Inr elems" using sort_result_total by blast
  have 2: "set elems = set (iter s)" and len: "length elems = length (iter s)"
    using sort_result_set [OF el] by simp_all
  have 3: "s \<noteq> {} \<longrightarrow>
             format_set iter s =
               Inr (asc ''{'' @ join (asc '', '') (map py_str elems) @ asc ''}'')"
    using el by (simp add: format_set_def)
  have 4: "(\<forall>a\<in>set (iter s). \<forall>b\<in>set (iter s). is_int a = is_int b) \<and> distinct (iter s) \<longrightarrow>
             sorted_wrt (\<lambda>a b. py_lt a b = Inr True) elems"
  proof
    assume h: "(\<forall>a\<in>set (iter s). \<forall>b\<in>set (iter s). is_int a = is_int b) \<and> distinct (iter s)"
    from h have h1: "\<forall>a\<in>set (iter s). \<forall>b\<in>set (iter s). is_int a = is_int b" ..
    from h have h2: "distinct (iter s)" ..
    from h1 h2 el show "sorted_wrt (\<lambda>a b. py_lt a b = Inr True) elems"
      by (rule sort_result_natural)
  qed
  have 5: "\<not> (\<forall>a\<in>set (iter s). \<forall>b\<in>set (iter s). is_int a = is_int b) \<longrightarrow>
             elems = sort_key py_str (iter s) \<and> sorted (map py_str elems)"
  proof
    assume "\<not> (\<forall>a\<in>set (iter s). \<forall>b\<in>set (iter s). is_int a = is_int b)"
    then have "sort_result iter s = Inr (sort_key py_str (iter s))"
      by (rule sort_result_mixed)
    with el have "elems = sort_key py_str (iter s)" by simp
    then show "elems = sort_key py_str (iter s) \<and> sorted (map py_str elems)" by simp
  qed
  have 6: "iteration_order iter {IntE 3, IntE 1, IntE 2} \<longrightarrow>
        format_set iter {IntE 3, IntE 1, IntE 2} = Inr (asc ''{1, 2, 3}'')"
    using format_example_ints by blast
  have 7: "iteration_order iter {IntE 1, StrE (asc ''b''), IntE 2} \<longrightarrow>
        format_set iter {IntE 1, StrE (asc ''b''), IntE 2} = Inr (asc ''{1, 2, b}'')"
    using format_example_mixed by blast
  have 8: "\<exists>w. venn_two iter operation A B U color_A color_B =
          Inr ((two_set_result operation A B U color_A color_B)
                 \<lparr>messages := w @ messages (two_set_result operation A B U color_A color_B)\<rparr>)"
    using venn_two_result [of iter operation A B U color_A color_B] by blast
  have E: "\<exists>elems. sort_result iter s = Inr elems
        \<and> set elems = set (iter s) \<and> length elems = length (iter s)
        \<and> (s \<noteq> {} \<longrightarrow>
             format_set iter s =
               Inr (asc ''{'' @ join (asc '', '') (map py_str elems) @ asc ''}''))
        \<and> ((\<forall>a\<in>set (iter s). \<forall>b\<in>set (iter s). is_int a = is_int b) \<and> distinct (iter s) \<longrightarrow>
             sorted_wrt (\<lambda>a b. py_lt a b = Inr True) elems)
        \<and> (\<not> (\<forall>a\<in>set (iter s). \<forall>b\<in>set (iter s). is_int a = is_int b) \<longrightarrow>
             elems = sort_key py_str (iter s) \<and> sorted (map py_str elems))"
    by (rule exI [of _ elems]) (rule conjI el 2 len 3 4 5)+
  show ?thesis
    by (rule conjI 1 E 6 7 8 9)+
qed

theorem format_set_spec_witness:
  "iteration_order (\<lambda>s. [IntE 2, IntE 3, IntE 1]) {IntE 3, IntE 1, IntE 2}
   \<and> format_set (\<lambda>s. [IntE 2, IntE 3, IntE 1]) {IntE 3, IntE 1, IntE 2} = Inr (asc ''{1, 2, 3}'')
   \<and> iteration_order (\<lambda>s. [StrE (asc ''b''), IntE 2, IntE 1]) {IntE 1, StrE (asc ''b''), IntE 2}
   \<and> format_set (\<lambda>s. [StrE (asc ''b''), IntE 2, IntE 1]) {IntE 1, StrE (asc ''b''), IntE 2} =
        Inr (asc ''{1, 2, b}'')"
proof -
  have a: "iteration_order (\<lambda>s. [IntE 2, IntE 3, IntE 1]) {IntE 3, IntE 1, IntE 2}"
    by (auto simp: iteration_order_def)
  have b: "iteration_order (\<lambda>s. [StrE (asc ''b''), IntE 2, IntE 1]) {IntE 1, StrE (asc ''b''), IntE 2}"
    by (auto simp: iteration_order_def)
  have c: "iteration_order (\<lambda>s. [IntE 2, IntE 3, IntE 1]) {IntE 3, IntE 1, IntE 2} \<longrightarrow>
      format_set (\<lambda>s. [IntE 2, IntE 3, IntE 1]) {IntE 3, IntE 1, IntE 2} = Inr (asc ''{1, 2, 3}'')"
    by (rule conjunct1 [OF conjunct2 [OF conjunct2 [OF format_set_spec]]])
  have d: "iteration_order (\<lambda>s. [StrE (asc ''b''), IntE 2, IntE 1]) {IntE 1, StrE (asc ''b''), IntE 2} \<longrightarrow>
      format_set (\<lambda>s. [StrE (asc ''b''), IntE 2, IntE 1]) {IntE 1, StrE (asc ''b''), IntE 2} =
        Inr (asc ''{1, 2, b}'')"
    by (rule conjunct1 [OF conjunct2 [OF conjunct2 [OF conjunct2 [OF format_set_spec]]]])
  show ?thesis
    by (rule conjI a b mp [OF c a] mp [OF d b])+
qed

end
